(* ===== verification/Prelude.thy ===== *)
theory Prelude
  imports Complex_Main "HOL-Library.Multiset"
begin

text \<open>
  Shared vocabulary of the development. Python lists are HOL lists indexed by
  \<open>int\<close> (the source computes indices such as \<open>low - 1\<close> and \<open>pi - 1\<close>, which
  may be negative), read through \<open>nat\<close> once an index is known to be in range.
  The theory holds the model of Python's tuple-swap statement
  \<open>a[i], a[j] = a[j], a[i]\<close>, the frame predicate \<open>same_outside\<close> (a step
  changed nothing outside a closed index range), slices of a closed range and
  sortedness on a closed range, with the lemmas the partition and quicksort
  proofs share.
\<close>

named_theorems swap_simps "evaluation of the swap statement on list cells"
named_theorems range_intros "introduction rules for range predicates"

datatype py_error = IndexError

text \<open>\<open>a[i], a[j] = a[j], a[i]\<close>: the right side is read first, then \<open>a[i]\<close>
  and \<open>a[j]\<close> are assigned in this order.\<close>

definition swap_at :: "'a list \<Rightarrow> int \<Rightarrow> int \<Rightarrow> 'a list" where
  "swap_at xs i j = xs[nat i := xs ! nat j, nat j := xs ! nat i]"

definition idx_ok :: "'a list \<Rightarrow> int \<Rightarrow> bool" where
  "idx_ok xs i \<longleftrightarrow> 0 \<le> i \<and> i < int (length xs)"

text \<open>\<open>xs[i]\<close> in Python: a negative index counts from the end; an index
  outside \<open>[-len(xs), len(xs))\<close> raises IndexError.\<close>

definition py_getitem :: "'a list \<Rightarrow> int \<Rightarrow> py_error + 'a" where
  "py_getitem xs i =
     (if - int (length xs) \<le> i \<and> i < int (length xs)
      then Inr (xs ! nat (i mod int (length xs))) else Inl IndexError)"

definition same_outside :: "'a list \<Rightarrow> 'a list \<Rightarrow> int \<Rightarrow> int \<Rightarrow> bool" where
  "same_outside xs ys lo hi \<longleftrightarrow>
     length ys = length xs \<and> (\<forall>k < length xs. int k < lo \<or> hi < int k \<longrightarrow> ys ! k = xs ! k)"

definition slice :: "'a list \<Rightarrow> int \<Rightarrow> int \<Rightarrow> 'a list" where
  "slice xs lo hi = take (nat (hi + 1 - lo)) (drop (nat lo) xs)"

definition sorted_between :: "('a \<Rightarrow> 'k::linorder) \<Rightarrow> 'a list \<Rightarrow> int \<Rightarrow> int \<Rightarrow> bool" where
  "sorted_between f xs lo hi \<longleftrightarrow>
     (\<forall>k l. lo \<le> int k \<longrightarrow> k \<le> l \<longrightarrow> int l \<le> hi \<longrightarrow> l < length xs \<longrightarrow> f (xs ! k) \<le> f (xs ! l))"

subsection \<open>The swap statement\<close>

lemma idx_ok_nat: "idx_ok xs i \<Longrightarrow> nat i < length xs"
  by (simp add: idx_ok_def nat_less_iff)

lemma idx_ok_map [simp]: "idx_ok (map f xs) i = idx_ok xs i"
  by (simp add: idx_ok_def)

lemma length_swap_at [simp]: "length (swap_at xs i j) = length xs"
  by (simp add: swap_at_def)

lemma nth_swap_at [swap_simps]:
  "idx_ok xs i \<Longrightarrow> idx_ok xs j \<Longrightarrow> k < length xs \<Longrightarrow>
   swap_at xs i j ! k =
     (if k = nat j then xs ! nat i else if k = nat i then xs ! nat j else xs ! k)"
  by (auto simp: swap_at_def idx_ok_def nth_list_update)

lemma swap_at_self [simp]: "swap_at xs i i = xs"
  by (simp add: swap_at_def)

lemma map_swap_at [swap_simps]:
  "idx_ok xs i \<Longrightarrow> idx_ok xs j \<Longrightarrow> map f (swap_at xs i j) = swap_at (map f xs) i j"
  by (simp add: swap_at_def idx_ok_def map_update nat_less_iff)

lemma mset_swap_at [simp]:
  "idx_ok xs i \<Longrightarrow> idx_ok xs j \<Longrightarrow> mset (swap_at xs i j) = mset xs"
proof (cases "i = j")
  case False
  assume "idx_ok xs i" "idx_ok xs j"
  then have "nat i < length xs" "nat j < length xs" "nat i \<noteq> nat j"
    using False by (auto simp: idx_ok_def)
  then show ?thesis
    by (simp add: swap_at_def list_update_swap mset_swap)
qed simp

subsection \<open>The frame predicate\<close>

lemma same_outside_refl [simp, range_intros]: "same_outside xs xs lo hi"
  by (simp add: same_outside_def)

lemma same_outside_trans:
  "same_outside xs ys lo hi \<Longrightarrow> same_outside ys zs lo hi \<Longrightarrow> same_outside xs zs lo hi"
  by (simp add: same_outside_def)

lemma same_outside_widen:
  "same_outside xs ys lo hi \<Longrightarrow> lo' \<le> lo \<Longrightarrow> hi \<le> hi' \<Longrightarrow> same_outside xs ys lo' hi'"
  by (fastforce simp: same_outside_def)

lemma same_outside_length: "same_outside xs ys lo hi \<Longrightarrow> length ys = length xs"
  by (simp add: same_outside_def)

lemma same_outside_nth:
  "same_outside xs ys lo hi \<Longrightarrow> k < length xs \<Longrightarrow> int k < lo \<or> hi < int k \<Longrightarrow> ys ! k = xs ! k"
  unfolding same_outside_def by blast

lemma same_outside_map:
  "same_outside xs ys lo hi \<Longrightarrow> same_outside (map f xs) (map f ys) lo hi"
  by (simp add: same_outside_def)

lemma swap_at_same_outside [range_intros]:
  "idx_ok xs i \<Longrightarrow> idx_ok xs j \<Longrightarrow> lo \<le> i \<Longrightarrow> i \<le> hi \<Longrightarrow> lo \<le> j \<Longrightarrow> j \<le> hi \<Longrightarrow>
   same_outside xs (swap_at xs i j) lo hi"
  by (auto simp: same_outside_def nth_swap_at idx_ok_def)

subsection \<open>Slices of a closed range\<close>

lemma length_slice:
  "0 \<le> lo \<Longrightarrow> lo \<le> hi + 1 \<Longrightarrow> hi < int (length xs) \<Longrightarrow> length (slice xs lo hi) = nat (hi + 1 - lo)"
  by (simp add: slice_def)

lemma nth_slice:
  "0 \<le> lo \<Longrightarrow> hi < int (length xs) \<Longrightarrow> t < nat (hi + 1 - lo) \<Longrightarrow>
   slice xs lo hi ! t = xs ! (nat lo + t)"
  by (simp add: slice_def)

lemma slice_map: "slice (map f xs) lo hi = map f (slice xs lo hi)"
  by (simp add: slice_def drop_map take_map)

lemma set_slice:
  assumes "0 \<le> lo" "hi < int (length xs)"
  shows "set (slice xs lo hi) = {xs ! k | k. lo \<le> int k \<and> int k \<le> hi}"
proof (cases "lo \<le> hi + 1")
  case True
  have "x \<in> set (slice xs lo hi) \<longleftrightarrow> (\<exists>k. lo \<le> int k \<and> int k \<le> hi \<and> x = xs ! k)" for x
  proof
    assume "x \<in> set (slice xs lo hi)"
    then obtain t where "t < nat (hi + 1 - lo)" "x = xs ! (nat lo + t)"
      using assms True by (auto simp: in_set_conv_nth length_slice nth_slice)
    then show "\<exists>k. lo \<le> int k \<and> int k \<le> hi \<and> x = xs ! k"
      using assms by (intro exI [of _ "nat lo + t"]) auto
  next
    assume "\<exists>k. lo \<le> int k \<and> int k \<le> hi \<and> x = xs ! k"
    then obtain k where k: "lo \<le> int k" "int k \<le> hi" "x = xs ! k" by blast
    then have "slice xs lo hi ! (k - nat lo) = x" "k - nat lo < length (slice xs lo hi)"
      using assms True by (simp_all add: nth_slice length_slice)
    then show "x \<in> set (slice xs lo hi)" by (metis nth_mem)
  qed
  then show ?thesis by blast
next
  case False
  then show ?thesis by (auto simp: slice_def)
qed

lemma slice_decomp:
  "0 \<le> lo \<Longrightarrow> lo \<le> hi + 1 \<Longrightarrow> take (nat lo) xs @ slice xs lo hi @ drop (nat (hi + 1)) xs = xs"
proof -
  assume "0 \<le> lo" "lo \<le> hi + 1"
  then have "drop (nat (hi + 1)) xs = drop (nat (hi + 1 - lo)) (drop (nat lo) xs)"
    by (simp add: drop_drop nat_add_distrib [symmetric])
  then have "slice xs lo hi @ drop (nat (hi + 1)) xs = drop (nat lo) xs"
    by (simp only: slice_def append_take_drop_id)
  then show ?thesis by simp
qed

lemma same_outside_take_drop:
  assumes "same_outside xs ys lo hi" "0 \<le> lo" "lo \<le> hi + 1"
  shows "take (nat lo) ys = take (nat lo) xs" "drop (nat (hi + 1)) ys = drop (nat (hi + 1)) xs"
  using assms by (auto intro!: nth_equalityI simp: same_outside_def)

text \<open>A step that permutes the whole list and changes nothing outside a range
  permutes the range.\<close>

lemma same_outside_mset_slice:
  assumes "same_outside xs ys lo hi" "mset ys = mset xs" "0 \<le> lo" "lo \<le> hi + 1"
  shows "mset (slice ys lo hi) = mset (slice xs lo hi)"
proof -
  note td = same_outside_take_drop [OF assms(1,3,4)]
  have "mset ys = mset (take (nat lo) ys @ slice ys lo hi @ drop (nat (hi + 1)) ys)"
    by (simp only: slice_decomp [OF assms(3,4)])
  also have "\<dots> = mset (take (nat lo) xs) + mset (slice ys lo hi) + mset (drop (nat (hi + 1)) xs)"
    by (simp add: td)
  finally have ys: "mset ys = mset (take (nat lo) xs) + mset (slice ys lo hi) + mset (drop (nat (hi + 1)) xs)" .
  have "mset xs = mset (take (nat lo) xs @ slice xs lo hi @ drop (nat (hi + 1)) xs)"
    by (simp only: slice_decomp [OF assms(3,4)])
  then have xs: "mset xs = mset (take (nat lo) xs) + mset (slice xs lo hi) + mset (drop (nat (hi + 1)) xs)"
    by simp
  from ys xs assms(2) show ?thesis by simp
qed

lemma slice_subset_all:
  assumes "set (slice ys lo hi) \<subseteq> set (slice xs lo hi)" "0 \<le> lo"
    "hi < int (length xs)" "hi < int (length ys)"
    "\<forall>k. lo \<le> int k \<and> int k \<le> hi \<longrightarrow> P (xs ! k)" "lo \<le> int k" "int k \<le> hi"
  shows "P (ys ! k)"
proof -
  have "ys ! k \<in> set (slice ys lo hi)"
    using assms(2,4,6,7) by (auto simp: set_slice)
  then have "ys ! k \<in> set (slice xs lo hi)" using assms(1) by blast
  then obtain k' where "lo \<le> int k'" "int k' \<le> hi" "ys ! k = xs ! k'"
    using assms(2,3) by (auto simp: set_slice)
  with assms(5) show ?thesis by metis
qed

lemma mset_slice_all:
  assumes "mset (slice ys lo hi) = mset (slice xs lo hi)" "0 \<le> lo"
    "hi < int (length xs)" "length ys = length xs"
  shows "(\<forall>k. lo \<le> int k \<and> int k \<le> hi \<longrightarrow> P (ys ! k)) \<longleftrightarrow>
         (\<forall>k. lo \<le> int k \<and> int k \<le> hi \<longrightarrow> P (xs ! k))"
proof -
  have "set (slice ys lo hi) = set (slice xs lo hi)"
    using assms(1) by (metis set_mset_mset)
  then show ?thesis
    using slice_subset_all [of ys lo hi xs P] slice_subset_all [of xs lo hi ys P] assms(2-4)
    by auto
qed


subsection \<open>Sortedness on a closed range\<close>

lemma sorted_between_trivial [range_intros]: "hi \<le> lo \<Longrightarrow> sorted_between f xs lo hi"
  unfolding sorted_between_def
proof (intro allI impI)
  fix k l
  assume "hi \<le> lo" "lo \<le> int k" "k \<le> l" "int l \<le> hi"
  then have "k = l" by linarith
  then show "f (xs ! k) \<le> f (xs ! l)" by simp
qed

lemma sorted_between_join:
  assumes "sorted_between f xs lo (p - 1)" "sorted_between f xs (p + 1) hi"
    and "\<forall>k. lo \<le> int k \<and> int k \<le> p - 1 \<longrightarrow> f (xs ! k) \<le> f (xs ! nat p)"
    and "\<forall>k. p + 1 \<le> int k \<and> int k \<le> hi \<longrightarrow> f (xs ! nat p) \<le> f (xs ! k)"
    and "lo \<le> p" "0 \<le> lo"
  shows "sorted_between f xs lo hi"
  unfolding sorted_between_def
proof (intro allI impI)
  fix k l
  assume k: "lo \<le> int k" "k \<le> l" "int l \<le> hi" "l < length xs"
  consider "int l \<le> p - 1" | "p + 1 \<le> int k" | "int k \<le> p" "p \<le> int l" by linarith
  then show "f (xs ! k) \<le> f (xs ! l)"
  proof cases
    case 1
    then show ?thesis using assms(1) k unfolding sorted_between_def by blast
  next
    case 2
    then show ?thesis using assms(2) k unfolding sorted_between_def by blast
  next
    case 3
    have a: "f (xs ! k) \<le> f (xs ! nat p)"
    proof (cases "int k = p")
      case False
      with 3 k assms(3) show ?thesis by auto
    qed auto
    have b: "f (xs ! nat p) \<le> f (xs ! l)"
    proof (cases "int l = p")
      case False
      with 3 k assms(4) show ?thesis by auto
    qed auto
    from a b show ?thesis by (rule order_trans)
  qed
qed

lemma sorted_between_same_outside:
  assumes "sorted_between f xs a b" "same_outside xs ys lo hi" "b < lo \<or> hi < a"
  shows "sorted_between f ys a b"
  unfolding sorted_between_def
proof (intro allI impI)
  fix k l
  assume k: "a \<le> int k" "k \<le> l" "int l \<le> b" "l < length ys"
  have len: "length ys = length xs" using assms(2) by (rule same_outside_length)
  have "ys ! k = xs ! k" "ys ! l = xs ! l"
    using k assms(3) len by (auto intro!: same_outside_nth [OF assms(2)])
  then show "f (ys ! k) \<le> f (ys ! l)"
    using assms(1) k len unfolding sorted_between_def by auto
qed

lemma sorted_between_iff_sorted:
  "sorted_between f xs 0 (int (length xs) - 1) \<longleftrightarrow> sorted (map f xs)"
  unfolding sorted_between_def sorted_iff_nth_mono by auto


subsection \<open>Composing sorted ranges\<close>
lemma same_outside_all:
  assumes "same_outside xs ys lo hi" "mset ys = mset xs" "0 \<le> lo" "lo \<le> hi + 1"
    "hi < int (length xs)" "\<forall>k. lo \<le> int k \<and> int k \<le> hi \<longrightarrow> P (xs ! k)"
  shows "\<forall>k. lo \<le> int k \<and> int k \<le> hi \<longrightarrow> P (ys ! k)"
proof -
  have "mset (slice ys lo hi) = mset (slice xs lo hi)"
    using assms(1-4) by (rule same_outside_mset_slice)
  then show ?thesis
    using mset_slice_all [of ys lo hi xs P] assms(3,5,6) same_outside_length [OF assms(1)] by blast
qed

lemma sorted_between_map: "sorted_between f (map g xs) lo hi = sorted_between (f \<circ> g) xs lo hi"
  by (auto simp: sorted_between_def)

text \<open>The step of quicksort on a range: a partitioned range whose two sides
  are then sorted in place, left first, is sorted.\<close>

lemma sorted_between_compose:
  fixes f :: "'a \<Rightarrow> 'k::linorder"
  assumes r: "0 \<le> low" "low \<le> p" "p \<le> high" "high < int (length a)"
    and left: "\<forall>k. low \<le> int k \<and> int k \<le> p - 1 \<longrightarrow> f (a ! k) \<le> f (a ! nat p)"
    and right: "\<forall>k. p + 1 \<le> int k \<and> int k \<le> high \<longrightarrow> f (a ! nat p) \<le> f (a ! k)"
    and ab: "same_outside a b low (p - 1)" "mset b = mset a" "sorted_between f b low (p - 1)"
    and bc: "same_outside b c (p + 1) high" "mset c = mset b" "sorted_between f c (p + 1) high"
  shows "sorted_between f c low high"
proof -
  have lb: "length b = length a" and lc: "length c = length b"
    using ab(1) bc(1) by (simp_all add: same_outside_length)
  have pl: "nat p < length a" using r by simp
  have pb: "b ! nat p = a ! nat p" using same_outside_nth [OF ab(1) pl] r by simp
  have pc: "c ! nat p = b ! nat p" using same_outside_nth [OF bc(1)] pl lb r by simp
  have lb_all: "\<forall>k. low \<le> int k \<and> int k \<le> p - 1 \<longrightarrow> f (b ! k) \<le> f (a ! nat p)"
    using same_outside_all [OF ab(1,2), of "\<lambda>x. f x \<le> f (a ! nat p)"] left r by simp
  have lc_all: "\<forall>k. low \<le> int k \<and> int k \<le> p - 1 \<longrightarrow> f (c ! k) \<le> f (c ! nat p)"
  proof (intro allI impI)
    fix k assume k: "low \<le> int k \<and> int k \<le> p - 1"
    then have "c ! k = b ! k" using same_outside_nth [OF bc(1)] lb r by simp
    then show "f (c ! k) \<le> f (c ! nat p)" using lb_all k pc pb by simp
  qed
  have rb_all: "\<forall>k. p + 1 \<le> int k \<and> int k \<le> high \<longrightarrow> f (a ! nat p) \<le> f (b ! k)"
  proof (intro allI impI)
    fix k assume k: "p + 1 \<le> int k \<and> int k \<le> high"
    then have "b ! k = a ! k" using same_outside_nth [OF ab(1)] r by simp
    then show "f (a ! nat p) \<le> f (b ! k)" using right k by simp
  qed
  have rc_all: "\<forall>k. p + 1 \<le> int k \<and> int k \<le> high \<longrightarrow> f (c ! nat p) \<le> f (c ! k)"
    using same_outside_all [OF bc(1,2), of "\<lambda>x. f (a ! nat p) \<le> f x"] rb_all r lb pc pb by simp
  have "sorted_between f c low (p - 1)"
    using ab(3) bc(1) by (rule sorted_between_same_outside) simp
  then show ?thesis
    using sorted_between_join [OF _ bc(3) lc_all rc_all] r by simp
qed


lemma sorted_between_mono:
  "sorted_between f xs lo hi \<Longrightarrow> lo \<le> lo' \<Longrightarrow> hi' \<le> hi \<Longrightarrow> sorted_between f xs lo' hi'"
  by (auto simp: sorted_between_def)

end
