(* ===== verification/PyRandom.thy ===== *)
theory PyRandom
  imports Prelude
begin

text \<open>
  Python's \<open>random\<close> module, which the source calls as an ambient global
  (\<open>random.randint\<close>, \<open>random.uniform\<close>, \<open>random.random\<close>), is modelled as an
  injected randomness provider: a record of the three functions over an
  abstract generator state \<open>'g\<close>, each returning its draw and the next state.
  What the program relies on is only the documented range of each draw; that
  contract is \<open>random_module_ok\<close>. The component theories are stated for every
  provider, with the contract as hypothesis where a theorem needs it; \<open>lcg\<close> is
  one concrete seeded provider that meets the contract, used by the witnesses.
\<close>

record 'g random_module =
  rm_randint :: "'g \<Rightarrow> int \<Rightarrow> int \<Rightarrow> int \<times> 'g"
  rm_uniform :: "'g \<Rightarrow> real \<Rightarrow> real \<Rightarrow> real \<times> 'g"
  rm_random :: "'g \<Rightarrow> real \<times> 'g"

text \<open>\<open>randint(a, b)\<close> returns an integer in \<open>[a, b]\<close>; \<open>uniform(a, b)\<close> a
  float in \<open>[a, b]\<close>; \<open>random()\<close> a float in \<open>[0, 1)\<close>.\<close>

definition randint_ok :: "'g random_module \<Rightarrow> bool" where
  "randint_ok R \<longleftrightarrow>
     (\<forall>g lo hi. lo \<le> hi \<longrightarrow> lo \<le> fst (rm_randint R g lo hi) \<and> fst (rm_randint R g lo hi) \<le> hi)"

definition uniform_ok :: "'g random_module \<Rightarrow> bool" where
  "uniform_ok R \<longleftrightarrow>
     (\<forall>g a b. a \<le> b \<longrightarrow> a \<le> fst (rm_uniform R g a b) \<and> fst (rm_uniform R g a b) \<le> b)"

definition unit_ok :: "'g random_module \<Rightarrow> bool" where
  "unit_ok R \<longleftrightarrow> (\<forall>g. 0 \<le> fst (rm_random R g) \<and> fst (rm_random R g) < 1)"

definition random_module_ok :: "'g random_module \<Rightarrow> bool" where
  "random_module_ok R \<longleftrightarrow> randint_ok R \<and> uniform_ok R \<and> unit_ok R"

text \<open>A linear congruential generator on a \<open>nat\<close> seed, reducing each raw
  draw into the requested range.\<close>

definition lcg_next :: "nat \<Rightarrow> nat" where
  "lcg_next s = (1103515245 * s + 12345) mod 2147483648"

definition lcg :: "nat random_module" where
  "lcg = \<lparr>rm_randint = (\<lambda>s lo hi. let s' = lcg_next s in (lo + int s' mod (hi - lo + 1), s')),
          rm_uniform = (\<lambda>s a b. let s' = lcg_next s in (a + (b - a) * (real s' / 2147483648), s')),
          rm_random = (\<lambda>s. let s' = lcg_next s in (real s' / 2147483648, s'))\<rparr>"

lemma randint_okD:
  "randint_ok R \<Longrightarrow> lo \<le> hi \<Longrightarrow> lo \<le> fst (rm_randint R g lo hi) \<and> fst (rm_randint R g lo hi) \<le> hi"
  by (simp add: randint_ok_def)

lemma uniform_okD:
  "uniform_ok R \<Longrightarrow> a \<le> b \<Longrightarrow> a \<le> fst (rm_uniform R g a b) \<and> fst (rm_uniform R g a b) \<le> b"
  by (simp add: uniform_ok_def)

lemma lcg_next_bound: "lcg_next s < 2147483648"
  by (simp add: lcg_next_def)

lemma lcg_randint_ok: "randint_ok lcg"
proof -
  have "lo \<le> lo + int s mod (hi - lo + 1) \<and> lo + int s mod (hi - lo + 1) \<le> hi"
    if "lo \<le> hi" for lo hi :: int and s :: nat
  proof -
    have pos: "0 < hi - lo + 1" using that by simp
    have "0 \<le> int s mod (hi - lo + 1)" using pos by (rule pos_mod_sign)
    moreover have "int s mod (hi - lo + 1) < hi - lo + 1" using pos by (rule pos_mod_bound)
    ultimately show ?thesis by linarith
  qed
  then show ?thesis by (simp add: randint_ok_def lcg_def Let_def)
qed

lemma lcg_uniform_ok: "uniform_ok lcg"
proof -
  have "a \<le> a + (b - a) * (real s / 2147483648) \<and> a + (b - a) * (real s / 2147483648) \<le> b"
    if "a \<le> b" "s < 2147483648" for a b :: real and s :: nat
  proof -
    have c0: "0 \<le> real s / 2147483648" and c1: "real s / 2147483648 \<le> 1"
      using that(2) by simp_all
    have ab: "0 \<le> b - a" using that(1) by simp
    have "0 \<le> (b - a) * (real s / 2147483648)" by (rule mult_nonneg_nonneg [OF ab c0])
    moreover have "(b - a) * (real s / 2147483648) \<le> b - a" by (rule mult_left_le [OF c1 ab])
    ultimately show ?thesis by linarith
  qed
  then show ?thesis by (simp add: uniform_ok_def lcg_def Let_def lcg_next_bound)
qed

lemma lcg_unit_ok: "unit_ok lcg"
  by (simp add: unit_ok_def lcg_def Let_def lcg_next_bound)

lemma lcg_ok: "random_module_ok lcg"
  by (simp add: random_module_ok_def lcg_randint_ok lcg_uniform_ok lcg_unit_ok)

end
