(* ===== verification/Racer.thy ===== *)
theory Racer
  imports PyRandom
begin

text \<open>
  The entity being sorted: class \<open>Racer\<close> of \<open>src/project/code.py\<close> (lines 33-80)
  with the constants and the mode enum it uses. A racer object is a record with
  one field per attribute the constructor sets. Python floats are modelled as
  \<open>real\<close> (rounding is not modelled; the sorting engine only compares the stored
  key, so its theorems hold for whatever value the rounding produced). The
  extra field \<open>oid\<close> is not an attribute of the source: it stands for the
  object's identity \<open>id(racer)\<close>, which the game relies on where it mutates the
  object that \<open>find_median\<close> returns and where it tests \<open>racer not in
  self.finish_order\<close>. \<open>racer_body\<close> forgets the \<open>lane\<close> slot, the one field the
  sorting engine writes: it is the entity as the spec's permutation property
  sees it.
\<close>

type_synonym color = "nat \<times> nat \<times> nat"

definition SCREEN_WIDTH :: int where "SCREEN_WIDTH = 1200"

definition RED :: color where "RED = (255, 50, 50)"
definition GREEN :: color where "GREEN = (50, 255, 50)"
definition BLUE :: color where "BLUE = (50, 50, 255)"
definition YELLOW :: color where "YELLOW = (255, 255, 50)"
definition PURPLE :: color where "PURPLE = (255, 50, 255)"
definition CYAN :: color where "CYAN = (50, 255, 255)"

datatype algorithm_mode = RANDOMIZED | DETERMINISTIC

record racer =
  oid :: nat
  name :: string
  color :: color
  base_speed :: real
  acceleration :: real
  handling :: real
  position :: real
  x_pos :: real
  y_pos :: int
  speed :: real
  lane :: int
  finished :: bool
  finish_time :: real
  power_active :: bool
  power_timer :: real
  sort_value :: real

definition calculate_sort_value :: "racer \<Rightarrow> real" where
  "calculate_sort_value r = base_speed r * 0.5 + acceleration r * 0.3 + handling r * 0.2"

text \<open>\<open>Racer.__init__\<close>: the fields in the order the constructor assigns them,
  the key computed last from the attributes already set.\<close>

definition new_racer :: "nat \<Rightarrow> string \<Rightarrow> color \<Rightarrow> real \<Rightarrow> real \<Rightarrow> real \<Rightarrow> racer" where
  "new_racer i nm c bs acc h =
     (let r = \<lparr>oid = i, name = nm, color = c, base_speed = bs, acceleration = acc,
               handling = h, position = 0, x_pos = 100, y_pos = 0, speed = 0, lane = 0,
               finished = False, finish_time = 0, power_active = False, power_timer = 0,
               sort_value = 0\<rparr>
      in r\<lparr>sort_value := calculate_sort_value r\<rparr>)"

text \<open>\<open>Racer.update(dt, boost_factor)\<close>: one physics step, drawing one
  \<open>random.random()\<close> when the racer has not finished.\<close>

definition racer_update :: "'g random_module \<Rightarrow> real \<Rightarrow> real \<Rightarrow> racer \<Rightarrow> 'g \<Rightarrow> racer \<times> 'g" where
  "racer_update R dt boost_factor r g =
     (if \<not> finished r then
        let r1 = r\<lparr>speed := speed r + acceleration r * dt * boost_factor\<rparr>;
            r2 = r1\<lparr>speed := min (speed r1) (base_speed r1 * boost_factor)\<rparr>;
            r3 = r2\<lparr>position := position r2 + speed r2 * dt\<rparr>;
            (u, g') = rm_random R g;
            r4 = (if u > handling r3 / 100 then r3\<lparr>speed := speed r3 * 0.95\<rparr> else r3);
            r5 = r4\<lparr>x_pos := 100 + position r4 * 2\<rparr>;
            r6 = (if x_pos r5 \<ge> of_int (SCREEN_WIDTH - 150)
                  then r5\<lparr>finished := True, x_pos := of_int (SCREEN_WIDTH - 150)\<rparr> else r5)
        in (r6, g')
      else (r, g))"

definition activate_power :: "racer \<Rightarrow> racer" where
  "activate_power r = r\<lparr>power_active := True, power_timer := 3.0\<rparr>"

definition racer_body :: "racer \<Rightarrow> racer" where
  "racer_body r = r\<lparr>lane := 0\<rparr>"

lemma sort_value_racer_body [simp]: "sort_value (racer_body r) = sort_value r"
  by (simp add: racer_body_def)

lemma racer_body_lane_update [simp]: "racer_body (r\<lparr>lane := l\<rparr>) = racer_body r"
  by (simp add: racer_body_def)

lemma name_racer_body [simp]: "name (racer_body r) = name r"
  by (simp add: racer_body_def)

lemma oid_racer_body [simp]: "oid (racer_body r) = oid r"
  by (simp add: racer_body_def)

lemma sort_value_new_racer:
  "sort_value (new_racer i nm c bs acc h) = bs * 0.5 + acc * 0.3 + h * 0.2"
  by (simp add: new_racer_def calculate_sort_value_def)

end
