(* ===== verification/Partition.thy ===== *)
theory Partition
  imports Racer
begin

text \<open>
  \<open>RaceSorterGame.partition\<close> (\<open>src/project/code.py\<close>, lines 147-162): the
  Lomuto partition of the closed range \<open>[low, high]\<close> around the key of
  \<open>arr[high]\<close>. The \<open>for j in range(low, high)\<close> loop is \<open>partition_loop\<close>,
  with the loop variables \<open>j\<close> and \<open>i\<close> as arguments; each swap is the
  two statements of the source, \<open>swap_at\<close> (the objects) followed by
  \<open>swap_lanes\<close> (the \<open>lane\<close> attributes of the objects now in the two cells).
  The lemmas show that the loop keeps the Lomuto invariant, that the returned
  index lies in the range, that the entities are only permuted inside the range
  and, since the second statement undoes the lane move of the first, that every
  cell keeps its lane: within \<open>partition\<close> the lane stays with the slot, not with
  the entity.
\<close>

text \<open>\<open>arr[i].lane, arr[j].lane = arr[j].lane, arr[i].lane\<close>: both lanes are
  read, then the object in cell \<open>i\<close> and the object in cell \<open>j\<close> are written.\<close>

definition swap_lanes :: "racer list \<Rightarrow> int \<Rightarrow> int \<Rightarrow> racer list" where
  "swap_lanes arr i j =
     (let a = lane (arr ! nat j); b = lane (arr ! nat i);
          arr1 = arr[nat i := (arr ! nat i)\<lparr>lane := a\<rparr>]
      in arr1[nat j := (arr1 ! nat j)\<lparr>lane := b\<rparr>])"

function partition_loop :: "real \<Rightarrow> int \<Rightarrow> int \<Rightarrow> int \<Rightarrow> racer list \<Rightarrow> int \<times> racer list" where
  "partition_loop pivot high j i arr =
     (if j < high then
        (if sort_value (arr ! nat j) \<le> pivot then
           (let i' = i + 1;
                arr' = swap_lanes (swap_at arr i' j) i' j
            in partition_loop pivot high (j + 1) i' arr')
         else partition_loop pivot high (j + 1) i arr)
      else (i, arr))"
  by pat_completeness auto
termination
  by (relation "measure (\<lambda>(pivot, high, j, i, arr). nat (high - j))") auto

declare partition_loop.simps [simp del]

definition partition :: "racer list \<Rightarrow> int \<Rightarrow> int \<Rightarrow> int \<times> racer list" where
  "partition arr low high =
     (let pivot = sort_value (arr ! nat high);
          i = low - 1;
          (i', arr1) = partition_loop pivot high low i arr;
          arr2 = swap_at arr1 (i' + 1) high;
          arr3 = swap_lanes arr2 (i' + 1) high
      in (i' + 1, arr3))"

subsection \<open>One swap step: objects move, lanes stay\<close>

lemma length_swap_lanes [simp]: "length (swap_lanes arr i j) = length arr"
  by (simp add: swap_lanes_def Let_def)

lemma nth_swap_lanes:
  "idx_ok arr i \<Longrightarrow> idx_ok arr j \<Longrightarrow> k < length arr \<Longrightarrow>
   swap_lanes arr i j ! k =
     (if k = nat j then (arr ! nat j)\<lparr>lane := lane (arr ! nat i)\<rparr>
      else if k = nat i then (arr ! nat i)\<lparr>lane := lane (arr ! nat j)\<rparr>
      else arr ! k)"
  by (auto simp: swap_lanes_def Let_def idx_ok_def nth_list_update)

lemma nth_swap_step [swap_simps]:
  "idx_ok arr i \<Longrightarrow> idx_ok arr j \<Longrightarrow> k < length arr \<Longrightarrow>
   swap_lanes (swap_at arr i j) i j ! k =
     (if k = nat j then (arr ! nat i)\<lparr>lane := lane (arr ! nat j)\<rparr>
      else if k = nat i then (arr ! nat j)\<lparr>lane := lane (arr ! nat i)\<rparr>
      else arr ! k)"
  by (auto simp: nth_swap_lanes nth_swap_at idx_ok_def)

lemma swap_lanes_self [simp]: "swap_lanes arr i i = arr"
  by (simp add: swap_lanes_def Let_def)

lemma lanes_swap_step:
  "idx_ok arr i \<Longrightarrow> idx_ok arr j \<Longrightarrow> map lane (swap_lanes (swap_at arr i j) i j) = map lane arr"
  by (rule nth_equalityI) (auto simp: nth_swap_step)

lemma bodies_swap_step:
  "idx_ok arr i \<Longrightarrow> idx_ok arr j \<Longrightarrow>
   map racer_body (swap_lanes (swap_at arr i j) i j) = swap_at (map racer_body arr) i j"
  by (rule nth_equalityI) (auto simp: nth_swap_step nth_swap_at idx_ok_def)

lemma keys_swap_step:
  "idx_ok arr i \<Longrightarrow> idx_ok arr j \<Longrightarrow>
   map sort_value (swap_lanes (swap_at arr i j) i j) = swap_at (map sort_value arr) i j"
  by (rule nth_equalityI) (auto simp: nth_swap_step nth_swap_at idx_ok_def)


subsection \<open>The loop, one branch at a time\<close>

lemma partition_loop_le:
  "j < high \<Longrightarrow> sort_value (arr ! nat j) \<le> pivot \<Longrightarrow>
   partition_loop pivot high j i arr =
   partition_loop pivot high (j + 1) (i + 1) (swap_lanes (swap_at arr (i + 1) j) (i + 1) j)"
  by (simp add: partition_loop.simps [of pivot high j i arr] Let_def)

lemma partition_loop_gt:
  "j < high \<Longrightarrow> \<not> sort_value (arr ! nat j) \<le> pivot \<Longrightarrow>
   partition_loop pivot high j i arr = partition_loop pivot high (j + 1) i arr"
  by (simp add: partition_loop.simps [of pivot high j i arr])

lemma partition_loop_stop: "\<not> j < high \<Longrightarrow> partition_loop pivot high j i arr = (i, arr)"
  by (simp add: partition_loop.simps [of pivot high j i arr])

lemmas partition_loop_eqs = partition_loop_le partition_loop_gt partition_loop_stop


text \<open>Induction over the loop with one case per branch of its body.\<close>

lemma partition_loop_induct [case_names le gt stop]:
  assumes le: "\<And>pivot high j i arr. j < high \<Longrightarrow> sort_value (arr ! nat j) \<le> pivot \<Longrightarrow>
      P pivot high (j + 1) (i + 1) (swap_lanes (swap_at arr (i + 1) j) (i + 1) j) \<Longrightarrow>
      P pivot high j i arr"
    and gt: "\<And>pivot high j i arr. j < high \<Longrightarrow> \<not> sort_value (arr ! nat j) \<le> pivot \<Longrightarrow>
      P pivot high (j + 1) i arr \<Longrightarrow> P pivot high j i arr"
    and stop: "\<And>pivot high j i arr. \<not> j < high \<Longrightarrow> P pivot high j i arr"
  shows "P pivot high j i arr"
proof (induction pivot high j i arr rule: partition_loop.induct)
  case (1 pivot high j i arr)
  show ?case
  proof (cases "j < high")
    case True
    show ?thesis
    proof (cases "sort_value (arr ! nat j) \<le> pivot")
      case c: True
      from "1.IH"(1) [OF True c refl refl] show ?thesis by (rule le [OF True c])
    next
      case c: False
      from "1.IH"(2) [OF True c] show ?thesis by (rule gt [OF True c])
    qed
  next
    case False
    then show ?thesis by (rule stop)
  qed
qed


subsection \<open>Loop invariants\<close>
lemma loop_index:
  "i \<le> fst (partition_loop pivot high j i arr) \<and>
   fst (partition_loop pivot high j i arr) \<le> i + max 0 (high - j)"
  by (induction pivot high j i arr rule: partition_loop_induct) (simp_all add: partition_loop_eqs)

lemma loop_length [simp]: "length (snd (partition_loop pivot high j i arr)) = length arr"
  by (induction pivot high j i arr rule: partition_loop_induct) (simp_all add: partition_loop_eqs)

lemma loop_lanes:
  "0 \<le> i + 1 \<Longrightarrow> i + 1 \<le> j \<Longrightarrow> high \<le> int (length arr) \<Longrightarrow>
   map lane (snd (partition_loop pivot high j i arr)) = map lane arr"
proof (induction pivot high j i arr rule: partition_loop_induct)
  case (le pivot high j i arr)
  then have "idx_ok arr (i + 1)" "idx_ok arr j" by (auto simp: idx_ok_def)
  with le show ?case by (simp add: partition_loop_eqs lanes_swap_step)
qed (simp_all add: partition_loop_eqs)



lemma loop_bodies:
  "0 \<le> i + 1 \<Longrightarrow> i + 1 \<le> j \<Longrightarrow> high \<le> int (length arr) \<Longrightarrow>
   mset (map racer_body (snd (partition_loop pivot high j i arr))) = mset (map racer_body arr) \<and>
   same_outside (map racer_body arr) (map racer_body (snd (partition_loop pivot high j i arr)))
     (i + 1) (high - 1)"
proof (induction pivot high j i arr rule: partition_loop_induct)
  case (le pivot high j i arr)
  let ?arr' = "swap_lanes (swap_at arr (i + 1) j) (i + 1) j"
  have ok: "idx_ok arr (i + 1)" "idx_ok arr j" using le.prems le.hyps(1) by (auto simp: idx_ok_def)
  then have b: "map racer_body ?arr' = swap_at (map racer_body arr) (i + 1) j"
    by (rule bodies_swap_step)
  have "same_outside (map racer_body arr) (map racer_body ?arr') (i + 1) (high - 1)"
    unfolding b using ok le.prems le.hyps(1) by (intro swap_at_same_outside) simp_all
  moreover have "same_outside (map racer_body ?arr') (map racer_body (snd (partition_loop pivot high (j + 1) (i + 1) ?arr'))) (i + 1) (high - 1)"
    using le.IH le.prems by (auto intro: same_outside_widen)
  ultimately show ?case
    using le.IH le.prems le.hyps ok by (auto simp: partition_loop_eqs b intro: same_outside_trans)
qed (simp_all add: partition_loop_eqs)

lemma loop_keys:
  "0 \<le> lo \<Longrightarrow> lo \<le> i + 1 \<Longrightarrow> i + 1 \<le> j \<Longrightarrow> high \<le> int (length arr) \<Longrightarrow>
   \<forall>k. lo \<le> int k \<and> int k \<le> i \<longrightarrow> sort_value (arr ! k) \<le> pivot \<Longrightarrow>
   \<forall>k. i + 1 \<le> int k \<and> int k \<le> j - 1 \<longrightarrow> pivot < sort_value (arr ! k) \<Longrightarrow>
   (\<forall>k. lo \<le> int k \<and> int k \<le> fst (partition_loop pivot high j i arr) \<longrightarrow>
        sort_value (snd (partition_loop pivot high j i arr) ! k) \<le> pivot) \<and>
   (\<forall>k. fst (partition_loop pivot high j i arr) + 1 \<le> int k \<and> int k \<le> high - 1 \<longrightarrow>
        pivot < sort_value (snd (partition_loop pivot high j i arr) ! k))"
proof (induction pivot high j i arr rule: partition_loop_induct)
  case (le pivot high j i arr)
  let ?arr' = "swap_lanes (swap_at arr (i + 1) j) (i + 1) j"
  have ok: "idx_ok arr (i + 1)" "idx_ok arr j" using le.prems le.hyps(1) by (auto simp: idx_ok_def)
  have lo: "\<forall>k. lo \<le> int k \<and> int k \<le> i + 1 \<longrightarrow> sort_value (?arr' ! k) \<le> pivot"
  proof (intro allI impI)
    fix k assume k: "lo \<le> int k \<and> int k \<le> i + 1"
    have kl: "k < length arr" using k le.prems(3,4) le.hyps(1) by linarith
    consider "k = nat j" | "k \<noteq> nat j" "k = nat (i + 1)" | "k \<noteq> nat j" "k \<noteq> nat (i + 1)" by blast
    then show "sort_value (?arr' ! k) \<le> pivot"
    proof cases
      case 1
      with k le.prems(3) have "nat (i + 1) = nat j" by linarith
      with 1 le.hyps(2) nth_swap_step [OF ok kl] show ?thesis by simp
    next
      case 2
      with le.hyps(2) nth_swap_step [OF ok kl] show ?thesis by simp
    next
      case 3
      with k have "int k \<le> i" by linarith
      with 3 k le.prems(5) nth_swap_step [OF ok kl] show ?thesis by simp
    qed
  qed
  have hi: "\<forall>k. i + 1 + 1 \<le> int k \<and> int k \<le> j + 1 - 1 \<longrightarrow> pivot < sort_value (?arr' ! k)"
  proof (intro allI impI)
    fix k assume k: "i + 1 + 1 \<le> int k \<and> int k \<le> j + 1 - 1"
    have kl: "k < length arr" using k le.prems(4) le.hyps(1) by linarith
    show "pivot < sort_value (?arr' ! k)"
    proof (cases "k = nat j")
      case True
      have "int (nat (i + 1)) = i + 1" "int (nat j) = j" using le.prems(1-3) by simp_all
      with k True have "i + 1 \<le> int (nat (i + 1)) \<and> int (nat (i + 1)) \<le> j - 1" by linarith
      with le.prems(6) have "pivot < sort_value (arr ! nat (i + 1))" by blast
      with True nth_swap_step [OF ok kl] show ?thesis by simp
    next
      case False
      have "int (nat j) = j" using le.prems(1-3) by simp
      with k False le.prems(1,2) have "k \<noteq> nat (i + 1)" "i + 1 \<le> int k \<and> int k \<le> j - 1" by auto
      with False le.prems(6) nth_swap_step [OF ok kl] show ?thesis by simp
    qed
  qed
  show ?case
    using le.IH [OF _ _ _ _ lo hi] le.prems le.hyps by (simp add: partition_loop_eqs)
next
  case (gt pivot high j i arr)
  have "\<forall>k. i + 1 \<le> int k \<and> int k \<le> j + 1 - 1 \<longrightarrow> pivot < sort_value (arr ! k)"
  proof (intro allI impI)
    fix k assume k: "i + 1 \<le> int k \<and> int k \<le> j + 1 - 1"
    show "pivot < sort_value (arr ! k)"
    proof (cases "int k = j")
      case True
      then have "k = nat j" by linarith
      then show ?thesis using gt.hyps(2) by simp
    next
      case False
      then show ?thesis using gt.prems(6) k by auto
    qed
  qed
  then show ?case using gt.IH gt.prems gt.hyps by (simp add: partition_loop_eqs)
next
  case (stop pivot high j i arr)
  then show ?case by (auto simp: partition_loop_eqs)
qed


subsection \<open>The partition step\<close>

lemma partition_split:
  assumes "partition_loop (sort_value (arr ! nat high)) high low (low - 1) arr = (i', arr1)"
  shows "partition arr low high = (i' + 1, swap_lanes (swap_at arr1 (i' + 1) high) (i' + 1) high)"
  using assms by (simp add: partition_def)

lemma partition_index:
  "low \<le> high \<Longrightarrow> low \<le> fst (partition arr low high) \<and> fst (partition arr low high) \<le> high"
  using loop_index [of "low - 1" "sort_value (arr ! nat high)" high low arr]
  by (cases "partition_loop (sort_value (arr ! nat high)) high low (low - 1) arr")
     (auto simp: partition_split)

lemma partition_length [simp]: "length (snd (partition arr low high)) = length arr"
  by (simp add: partition_def case_prod_beta Let_def)

lemma partition_loop_init:
  assumes L: "partition_loop (sort_value (arr ! nat high)) high low (low - 1) arr = (i', arr1)"
    and r: "0 \<le> low" "low \<le> high" "high < int (length arr)"
  shows "length arr1 = length arr" and "low - 1 \<le> i'" and "i' \<le> high - 1"
    and "map lane arr1 = map lane arr"
    and "mset (map racer_body arr1) = mset (map racer_body arr)"
    and "same_outside (map racer_body arr) (map racer_body arr1) low (high - 1)"
    and "\<forall>k. low \<le> int k \<and> int k \<le> i' \<longrightarrow> sort_value (arr1 ! k) \<le> sort_value (arr ! nat high)"
    and "\<forall>k. i' + 1 \<le> int k \<and> int k \<le> high - 1 \<longrightarrow> sort_value (arr ! nat high) < sort_value (arr1 ! k)"
    and "sort_value (arr1 ! nat high) = sort_value (arr ! nat high)"
proof -
  let ?p = "sort_value (arr ! nat high)"
  show len: "length arr1 = length arr"
    using loop_length [of ?p high low "low - 1" arr] unfolding L by simp
  show "low - 1 \<le> i'" "i' \<le> high - 1"
    using loop_index [of "low - 1" ?p high low arr] r unfolding L by auto
  show "map lane arr1 = map lane arr"
    using loop_lanes [of "low - 1" low high arr ?p] r unfolding L by simp
  show "mset (map racer_body arr1) = mset (map racer_body arr)"
    and so: "same_outside (map racer_body arr) (map racer_body arr1) low (high - 1)"
    using loop_bodies [of "low - 1" low high arr ?p] r unfolding L by simp_all
  show "\<forall>k. low \<le> int k \<and> int k \<le> i' \<longrightarrow> sort_value (arr1 ! k) \<le> ?p"
    and "\<forall>k. i' + 1 \<le> int k \<and> int k \<le> high - 1 \<longrightarrow> ?p < sort_value (arr1 ! k)"
    using loop_keys [of low "low - 1" low high arr ?p] r unfolding L by auto
  have hl: "nat high < length arr" using r by simp
  have "map racer_body arr1 ! nat high = map racer_body arr ! nat high"
    using same_outside_nth [OF so, of "nat high"] hl by simp
  then have "racer_body (arr1 ! nat high) = racer_body (arr ! nat high)"
    using hl len by simp
  then show "sort_value (arr1 ! nat high) = ?p"
    by (metis sort_value_racer_body)
qed

lemma partition_lanes:
  assumes "0 \<le> low" "low \<le> high" "high < int (length arr)"
  shows "map lane (snd (partition arr low high)) = map lane arr"
proof -
  obtain i' arr1 where L: "partition_loop (sort_value (arr ! nat high)) high low (low - 1) arr = (i', arr1)"
    by fastforce
  note f = partition_loop_init [OF L assms]
  have ok: "idx_ok arr1 (i' + 1)" "idx_ok arr1 high" using f(1-3) assms by (auto simp: idx_ok_def)
  show ?thesis by (simp add: partition_split [OF L] lanes_swap_step [OF ok] f(4))
qed

lemma partition_bodies:
  assumes "0 \<le> low" "low \<le> high" "high < int (length arr)"
  shows "mset (map racer_body (snd (partition arr low high))) = mset (map racer_body arr)"
    and "same_outside (map racer_body arr) (map racer_body (snd (partition arr low high))) low high"
proof -
  obtain i' arr1 where L: "partition_loop (sort_value (arr ! nat high)) high low (low - 1) arr = (i', arr1)"
    by fastforce
  note f = partition_loop_init [OF L assms]
  have ok: "idx_ok arr1 (i' + 1)" "idx_ok arr1 high" using f(1-3) assms by (auto simp: idx_ok_def)
  have b: "map racer_body (snd (partition arr low high)) = swap_at (map racer_body arr1) (i' + 1) high"
    by (simp add: partition_split [OF L] bodies_swap_step [OF ok])
  show "mset (map racer_body (snd (partition arr low high))) = mset (map racer_body arr)"
    using ok f(5) by (simp add: b)
  have "same_outside (map racer_body arr1) (swap_at (map racer_body arr1) (i' + 1) high) low high"
    using ok f(2,3) assms by (intro swap_at_same_outside) simp_all
  moreover have "same_outside (map racer_body arr) (map racer_body arr1) low high"
    using f(6) by (rule same_outside_widen) simp_all
  ultimately show "same_outside (map racer_body arr) (map racer_body (snd (partition arr low high))) low high"
    unfolding b by (blast intro: same_outside_trans)
qed


lemma partition_keys:
  assumes r: "0 \<le> low" "low \<le> high" "high < int (length arr)"
    and P: "partition arr low high = (p, res)"
  shows "sort_value (res ! nat p) = sort_value (arr ! nat high)"
    and "\<forall>k. low \<le> int k \<and> int k \<le> p - 1 \<longrightarrow> sort_value (res ! k) \<le> sort_value (res ! nat p)"
    and "\<forall>k. p + 1 \<le> int k \<and> int k \<le> high \<longrightarrow> sort_value (res ! nat p) < sort_value (res ! k)"
proof -
  obtain i' arr1 where L: "partition_loop (sort_value (arr ! nat high)) high low (low - 1) arr = (i', arr1)"
    by fastforce
  note f = partition_loop_init [OF L r]
  have ok: "idx_ok arr1 (i' + 1)" "idx_ok arr1 high" using f(1-3) r by (auto simp: idx_ok_def)
  have "(p, res) = (i' + 1, swap_lanes (swap_at arr1 (i' + 1) high) (i' + 1) high)"
    unfolding P [symmetric] by (rule partition_split [OF L])
  note e = this
  have pr: "p = i' + 1" "res = swap_lanes (swap_at arr1 (i' + 1) high) (i' + 1) high"
    using arg_cong [OF e, of fst] arg_cong [OF e, of snd] by simp_all
  have nth: "k < length arr1 \<Longrightarrow> res ! k =
     (if k = nat high then (arr1 ! nat (i' + 1))\<lparr>lane := lane (arr1 ! nat high)\<rparr>
      else if k = nat (i' + 1) then (arr1 ! nat high)\<lparr>lane := lane (arr1 ! nat (i' + 1))\<rparr>
      else arr1 ! k)" for k
    unfolding pr(2) by (rule nth_swap_step [OF ok])
  have pl: "nat p < length arr1" using idx_ok_nat [OF ok(1)] pr(1) by simp
  show piv: "sort_value (res ! nat p) = sort_value (arr ! nat high)"
    using nth [OF pl] f(9) pr(1) by auto
  show "\<forall>k. low \<le> int k \<and> int k \<le> p - 1 \<longrightarrow> sort_value (res ! k) \<le> sort_value (res ! nat p)"
  proof (intro allI impI)
    fix k assume k: "low \<le> int k \<and> int k \<le> p - 1"
    then have lt: "int k < high" "int k < i' + 1" using f(3) pr(1) by linarith+
    then have kl: "k < length arr1" using f(1) r(3) by linarith
    from lt r(1,2) have ne: "k \<noteq> nat high" "k \<noteq> nat (i' + 1)" by auto
    then show "sort_value (res ! k) \<le> sort_value (res ! nat p)"
      using nth [OF kl] f(7) k pr(1) piv by auto
  qed
  show "\<forall>k. p + 1 \<le> int k \<and> int k \<le> high \<longrightarrow> sort_value (res ! nat p) < sort_value (res ! k)"
  proof (intro allI impI)
    fix k assume k: "p + 1 \<le> int k \<and> int k \<le> high"
    then have kl: "k < length arr1" and ne: "k \<noteq> nat (i' + 1)" using f(1,2) r pr(1) by auto
    show "sort_value (res ! nat p) < sort_value (res ! k)"
    proof (cases "k = nat high")
      case True
      then have "i' + 1 \<le> int (nat (i' + 1)) \<and> int (nat (i' + 1)) \<le> high - 1"
        using k f(2) r pr(1) by auto
      then show ?thesis using nth [OF kl] True f(8) piv by auto
    next
      case False
      then have "i' + 1 \<le> int k \<and> int k \<le> high - 1" using k pr(1) by auto
      then show ?thesis using nth [OF kl] False ne f(8) piv by auto
    qed
  qed
qed


lemma partition_index_pair:
  "(p, arr') = partition arr low high \<Longrightarrow> low < high \<Longrightarrow> low \<le> p \<and> p \<le> high"
  using partition_index [of low high arr] by (simp add: prod_eq_iff)

end
