(* ===== verification/Quicksort.thy ===== *)
theory Quicksort
  imports Partition
begin

text \<open>
  The sorting engine: \<open>RaceSorterGame.quicksort_randomized\<close> and
  \<open>RaceSorterGame.quicksort_deterministic\<close> (\<open>src/project/code.py\<close>, lines
  121-145) and the mode dispatch of \<open>start_race\<close> (lines 189-193). The state
  the two methods touch is the record \<open>engine\<close>: the list \<open>self.racers\<close> (which
  the source passes as \<open>arr\<close> and mutates in place), the instrumentation fields
  \<open>self.sort_operations\<close> and \<open>self.pivot_highlights\<close>, and the state of the
  global random generator. The game state of \<open>Game\<close> extends this record, so
  the operations are stated over \<open>('g, 'z) engine_scheme\<close> and leave the rest of
  the game untouched. Each recursive call of the source is a recursive call
  here, the state after the first call being the state of the second.
\<close>

record 'g engine =
  racers :: "racer list"
  sort_operations :: nat
  pivot_highlights :: "int list"
  rng :: 'g

function quicksort_deterministic :: "int \<Rightarrow> int \<Rightarrow> ('g, 'z) engine_scheme \<Rightarrow> ('g, 'z) engine_scheme" where
  "quicksort_deterministic low high s =
     (if low < high then
        (let pivot_index = high;
             s1 = s\<lparr>pivot_highlights := pivot_highlights s @ [pivot_index]\<rparr>;
             s2 = s1\<lparr>sort_operations := sort_operations s1 + 1\<rparr>;
             (pi, arr') = partition (racers s2) low high;
             s3 = quicksort_deterministic low (pi - 1) (s2\<lparr>racers := arr'\<rparr>)
         in quicksort_deterministic (pi + 1) high s3)
      else s)"
  by pat_completeness auto
termination
  by (relation "measure (\<lambda>(low, high, s). nat (high - low + 1))")
     (auto dest!: partition_index_pair)

function quicksort_randomized ::
  "'g random_module \<Rightarrow> int \<Rightarrow> int \<Rightarrow> ('g, 'z) engine_scheme \<Rightarrow> ('g, 'z) engine_scheme" where
  "quicksort_randomized R low high s =
     (if low < high then
        (let (pivot_index, g) = rm_randint R (rng s) low high;
             s1 = s\<lparr>rng := g\<rparr>;
             s2 = s1\<lparr>pivot_highlights := pivot_highlights s1 @ [pivot_index]\<rparr>;
             s3 = s2\<lparr>sort_operations := sort_operations s2 + 1\<rparr>;
             arr1 = swap_at (racers s3) low pivot_index;
             (pi, arr2) = partition arr1 low high;
             s4 = quicksort_randomized R low (pi - 1) (s3\<lparr>racers := arr2\<rparr>)
         in quicksort_randomized R (pi + 1) high s4)
      else s)"
  by pat_completeness auto
termination
  by (relation "measure (\<lambda>(R, low, high, s). nat (high - low + 1))")
     (auto dest!: partition_index_pair)

declare quicksort_deterministic.simps [simp del] quicksort_randomized.simps [simp del]

definition sort_racers ::
  "algorithm_mode \<Rightarrow> 'g random_module \<Rightarrow> ('g, 'z) engine_scheme \<Rightarrow> ('g, 'z) engine_scheme" where
  "sort_racers mode R s =
     (if mode = RANDOMIZED then quicksort_randomized R 0 (int (length (racers s)) - 1) s
      else quicksort_deterministic 0 (int (length (racers s)) - 1) s)"

subsection \<open>Sorting a range in place\<close>

text \<open>The contract of one call on \<open>[low, high]\<close>: the entities are permuted,
  nothing outside the range changes, and the keys in the range are ascending.\<close>

definition sorts_range :: "racer list \<Rightarrow> racer list \<Rightarrow> int \<Rightarrow> int \<Rightarrow> bool" where
  "sorts_range xs ys low high \<longleftrightarrow>
     length ys = length xs \<and>
     mset (map racer_body ys) = mset (map racer_body xs) \<and>
     same_outside (map racer_body xs) (map racer_body ys) low high \<and>
     sorted_between sort_value ys low high"

subsection \<open>The recursion, one branch at a time\<close>

lemma quicksort_deterministic_stop:
  "\<not> low < high \<Longrightarrow> quicksort_deterministic low high s = s"
  by (simp add: quicksort_deterministic.simps [of low high s])

lemma quicksort_deterministic_step:
  "low < high \<Longrightarrow> partition (racers s) low high = (p, a) \<Longrightarrow>
   quicksort_deterministic low high s =
     quicksort_deterministic (p + 1) high
       (quicksort_deterministic low (p - 1)
         (s\<lparr>pivot_highlights := pivot_highlights s @ [high],
            sort_operations := sort_operations s + 1, racers := a\<rparr>))"
  by (simp add: quicksort_deterministic.simps [of low high s])

lemma quicksort_deterministic_induct [case_names stop step]:
  assumes stop: "\<And>low high s. \<not> low < high \<Longrightarrow> P low high s"
    and step: "\<And>low high s p a. low < high \<Longrightarrow> partition (racers s) low high = (p, a) \<Longrightarrow>
      P low (p - 1) (s\<lparr>pivot_highlights := pivot_highlights s @ [high],
                        sort_operations := sort_operations s + 1, racers := a\<rparr>) \<Longrightarrow>
      P (p + 1) high (quicksort_deterministic low (p - 1)
                        (s\<lparr>pivot_highlights := pivot_highlights s @ [high],
                           sort_operations := sort_operations s + 1, racers := a\<rparr>)) \<Longrightarrow>
      P low high s"
  shows "P low high s"
proof (induction low high s rule: quicksort_deterministic.induct)
  case (1 low high s)
  show ?case
  proof (cases "low < high")
    case True
    obtain p a where P: "partition (racers s) low high = (p, a)" by fastforce
    have h1: "P low (p - 1) (s\<lparr>pivot_highlights := pivot_highlights s @ [high],
                                sort_operations := sort_operations s + 1, racers := a\<rparr>)"
      using "1.IH"(1) [OF True refl refl refl refl, of p a] P by simp
    have h2: "P (p + 1) high (quicksort_deterministic low (p - 1)
                 (s\<lparr>pivot_highlights := pivot_highlights s @ [high],
                    sort_operations := sort_operations s + 1, racers := a\<rparr>))"
      using "1.IH"(2) [OF True refl refl refl refl, of p a] P by simp
    show ?thesis by (rule step [OF True P h1 h2])
  qed (rule stop)
qed

lemma quicksort_randomized_stop:
  "\<not> low < high \<Longrightarrow> quicksort_randomized R low high s = s"
  by (simp add: quicksort_randomized.simps [of R low high s])

lemma quicksort_randomized_step:
  "low < high \<Longrightarrow> rm_randint R (rng s) low high = (q, g) \<Longrightarrow>
   partition (swap_at (racers s) low q) low high = (p, a) \<Longrightarrow>
   quicksort_randomized R low high s =
     quicksort_randomized R (p + 1) high
       (quicksort_randomized R low (p - 1)
         (s\<lparr>rng := g, pivot_highlights := pivot_highlights s @ [q],
            sort_operations := sort_operations s + 1, racers := a\<rparr>))"
  by (simp add: quicksort_randomized.simps [of R low high s])

lemma quicksort_randomized_induct [case_names stop step]:
  assumes stop: "\<And>low high s. \<not> low < high \<Longrightarrow> P low high s"
    and step: "\<And>low high s q g p a. low < high \<Longrightarrow> rm_randint R (rng s) low high = (q, g) \<Longrightarrow>
      partition (swap_at (racers s) low q) low high = (p, a) \<Longrightarrow>
      P low (p - 1) (s\<lparr>rng := g, pivot_highlights := pivot_highlights s @ [q],
                        sort_operations := sort_operations s + 1, racers := a\<rparr>) \<Longrightarrow>
      P (p + 1) high (quicksort_randomized R low (p - 1)
                        (s\<lparr>rng := g, pivot_highlights := pivot_highlights s @ [q],
                           sort_operations := sort_operations s + 1, racers := a\<rparr>)) \<Longrightarrow>
      P low high s"
  shows "P low high s"
proof -
  have gen: "R0 = R \<Longrightarrow> P low high s" for R0
  proof (induction R0 low high s rule: quicksort_randomized.induct)
    case (1 R0 low high s)
    show ?case
    proof (cases "low < high")
      case True
      obtain q g where Q: "rm_randint R (rng s) low high = (q, g)" by fastforce
      obtain p a where P: "partition (swap_at (racers s) low q) low high = (p, a)" by fastforce
      have Q0: "(q, g) = rm_randint R0 (rng s) low high" using Q "1.prems" by simp
      have h1: "P low (p - 1) (s\<lparr>rng := g, pivot_highlights := pivot_highlights s @ [q],
                                  sort_operations := sort_operations s + 1, racers := a\<rparr>)"
        using "1.IH"(1) [OF True refl Q0 refl refl refl refl refl, of p a] P "1.prems" by simp
      have h2: "P (p + 1) high (quicksort_randomized R low (p - 1)
                   (s\<lparr>rng := g, pivot_highlights := pivot_highlights s @ [q],
                      sort_operations := sort_operations s + 1, racers := a\<rparr>))"
        using "1.IH"(2) [OF True refl Q0 refl refl refl refl refl, of p a] P "1.prems" by simp
      show ?thesis by (rule step [OF True Q P h1 h2])
    qed (rule stop)
  qed
  show ?thesis by (rule gen [OF refl])
qed


lemma sorts_range_refl: "high \<le> low \<Longrightarrow> sorts_range xs xs low high"
  by (simp add: sorts_range_def sorted_between_trivial)

lemma sorted_between_bodies [simp]:
  "sorted_between sort_value (map racer_body xs) lo hi = sorted_between sort_value xs lo hi"
  by (simp add: sorted_between_map comp_def)

lemma sorts_range_step:
  assumes r: "0 \<le> low" "low < high" "high < int (length arr)"
    and P: "partition arr low high = (p, a)"
    and ab: "sorts_range a b low (p - 1)" and bc: "sorts_range b c (p + 1) high"
  shows "sorts_range arr c low high"
proof -
  have pr: "low \<le> p" "p \<le> high" using partition_index [of low high arr] r P by simp_all
  have la: "length a = length arr" using partition_length [of arr low high] P by simp
  note pk = partition_keys [OF _ _ r(3) P] and pb = partition_bodies [of low high arr]
  let ?A = "map racer_body a" and ?B = "map racer_body b" and ?C = "map racer_body c"
  have left: "\<forall>k. low \<le> int k \<and> int k \<le> p - 1 \<longrightarrow> sort_value (?A ! k) \<le> sort_value (?A ! nat p)"
    using pk(2) r pr la by auto
  have right: "\<forall>k. p + 1 \<le> int k \<and> int k \<le> high \<longrightarrow> sort_value (?A ! nat p) \<le> sort_value (?A ! k)"
    using pk(3) r pr la by (auto simp: less_imp_le)
  have "sorted_between sort_value ?C low high"
    using ab bc r pr la
    by (intro sorted_between_compose [OF r(1) pr _ left right, of ?B])
       (auto simp: sorts_range_def)
  moreover have "same_outside (map racer_body arr) ?C low high"
  proof -
    have "same_outside (map racer_body arr) ?A low high" using pb r P by simp
    moreover have "same_outside ?A ?B low high" using ab pr by (auto simp: sorts_range_def intro: same_outside_widen)
    moreover have "same_outside ?B ?C low high" using bc pr by (auto simp: sorts_range_def intro: same_outside_widen)
    ultimately show ?thesis by (blast intro: same_outside_trans)
  qed
  moreover have "mset ?C = mset (map racer_body arr)" "length c = length arr"
    using ab bc pb r P la by (simp_all add: sorts_range_def)
  ultimately show ?thesis by (simp add: sorts_range_def)
qed


lemma sorts_range_pre_swap:
  assumes r: "0 \<le> low" "low \<le> q" "q \<le> high" "high < int (length arr)"
    and sr: "sorts_range (swap_at arr low q) c low high"
  shows "sorts_range arr c low high"
proof -
  have ok: "idx_ok arr low" "idx_ok arr q" using r by (auto simp: idx_ok_def)
  have b: "map racer_body (swap_at arr low q) = swap_at (map racer_body arr) low q"
    using ok by (rule map_swap_at)
  have "same_outside (map racer_body arr) (swap_at (map racer_body arr) low q) low high"
    using ok r by (intro swap_at_same_outside) simp_all
  then show ?thesis
    using sr ok by (auto simp: sorts_range_def b intro: same_outside_trans)
qed

lemma quicksort_deterministic_sorts_range:
  "0 \<le> low \<Longrightarrow> high < int (length (racers s)) \<Longrightarrow>
   sorts_range (racers s) (racers (quicksort_deterministic low high s)) low high"
proof (induction low high s rule: quicksort_deterministic_induct)
  case (stop low high s)
  then show ?case by (simp add: quicksort_deterministic_stop sorts_range_refl)
next
  case (step low high s p a)
  have pr: "low \<le> p" "p \<le> high" using partition_index [of low high "racers s"] step by simp_all
  have la: "length a = length (racers s)" using partition_length [of "racers s" low high] step by simp
  let ?s1 = "s\<lparr>pivot_highlights := pivot_highlights s @ [high],
                 sort_operations := sort_operations s + 1, racers := a\<rparr>"
  have ih1: "sorts_range a (racers (quicksort_deterministic low (p - 1) ?s1)) low (p - 1)"
    using step.IH(1) step.prems pr la by simp
  then have "length (racers (quicksort_deterministic low (p - 1) ?s1)) = length a"
    by (simp add: sorts_range_def)
  then have ih2: "sorts_range (racers (quicksort_deterministic low (p - 1) ?s1))
      (racers (quicksort_deterministic (p + 1) high (quicksort_deterministic low (p - 1) ?s1))) (p + 1) high"
    using step.IH(2) step.prems pr la by simp
  show ?case
    using sorts_range_step [OF step.prems(1) step.hyps(1) step.prems(2) step.hyps(2) ih1 ih2]
    by (simp add: quicksort_deterministic_step [OF step.hyps])
qed

lemma quicksort_randomized_sorts_range:
  "randint_ok R \<Longrightarrow> 0 \<le> low \<Longrightarrow> high < int (length (racers s)) \<Longrightarrow>
   sorts_range (racers s) (racers (quicksort_randomized R low high s)) low high"
proof (induction low high s rule: quicksort_randomized_induct [where R = R])
  case (stop low high s)
  then show ?case by (simp add: quicksort_randomized_stop sorts_range_refl)
next
  case (step low high s q g p a)
  have qr: "low \<le> q" "q \<le> high" using randint_okD [OF step.prems(1), of low high "rng s"] step.hyps by auto
  have pr: "low \<le> p" "p \<le> high"
    using partition_index [of low high "swap_at (racers s) low q"] step.hyps by simp_all
  have la: "length a = length (racers s)"
    using partition_length [of "swap_at (racers s) low q" low high] step.hyps by simp
  let ?s1 = "s\<lparr>rng := g, pivot_highlights := pivot_highlights s @ [q],
                 sort_operations := sort_operations s + 1, racers := a\<rparr>"
  have ih1: "sorts_range a (racers (quicksort_randomized R low (p - 1) ?s1)) low (p - 1)"
    using step.IH(1) step.prems pr la by simp
  then have "length (racers (quicksort_randomized R low (p - 1) ?s1)) = length a"
    by (simp add: sorts_range_def)
  then have ih2: "sorts_range (racers (quicksort_randomized R low (p - 1) ?s1))
      (racers (quicksort_randomized R (p + 1) high (quicksort_randomized R low (p - 1) ?s1))) (p + 1) high"
    using step.IH(2) step.prems pr la by simp
  have "sorts_range (swap_at (racers s) low q)
      (racers (quicksort_randomized R (p + 1) high (quicksort_randomized R low (p - 1) ?s1))) low high"
    using sorts_range_step [OF step.prems(2) step.hyps(1) _ step.hyps(3) ih1 ih2] step.prems by simp
  then show ?case
    using sorts_range_pre_swap [OF step.prems(2) qr step.prems(3)]
    by (simp add: quicksort_randomized_step [OF step.hyps])
qed


subsection \<open>The whole list\<close>

lemma sorts_range_whole:
  "sorts_range xs ys 0 (int (length xs) - 1) \<Longrightarrow>
   sorted (map sort_value ys) \<and> mset (map racer_body ys) = mset (map racer_body xs)"
  by (simp add: sorts_range_def flip: sorted_between_iff_sorted)

lemma quicksort_deterministic_whole:
  "sorts_range (racers s) (racers (quicksort_deterministic 0 (int (length (racers s)) - 1) s))
     0 (int (length (racers s)) - 1)"
  by (rule quicksort_deterministic_sorts_range) simp_all

lemma quicksort_randomized_whole:
  "randint_ok R \<Longrightarrow>
   sorts_range (racers s) (racers (quicksort_randomized R 0 (int (length (racers s)) - 1) s))
     0 (int (length (racers s)) - 1)"
  by (rule quicksort_randomized_sorts_range) simp_all

text \<open>C1: In deterministic mode, sorting the whole list (the call
  \<open>quicksort_deterministic(self.racers, 0, len(self.racers) - 1)\<close> of
  \<open>start_race\<close>) leaves the racers ascending by \<open>sort_value\<close>, for every input.\<close>

theorem quicksort_deterministic_sorted:
  "sorted (map sort_value (racers (quicksort_deterministic 0 (int (length (racers s)) - 1) s)))"
  using sorts_range_whole [OF quicksort_deterministic_whole [of s]] by simp

text \<open>C2: In randomized mode, whatever indices the random source draws within
  the range \<open>random.randint\<close> promises, sorting the whole list leaves the racers
  ascending by \<open>sort_value\<close>.\<close>

theorem quicksort_randomized_sorted:
  "randint_ok R \<Longrightarrow>
   sorted (map sort_value (racers (quicksort_randomized R 0 (int (length (racers s)) - 1) s)))"
  using sorts_range_whole [OF quicksort_randomized_whole [of R s]] by simp

theorem quicksort_randomized_sorted_witness:
  "randint_ok lcg \<and>
   sorted (map sort_value (racers (quicksort_randomized lcg 0 2
     \<lparr>racers = [new_racer 0 ''Flash'' RED 100 30 70, new_racer 1 ''Turbo'' BLUE 90 25 80,
                 new_racer 2 ''Nitro'' GREEN 110 35 65],
      sort_operations = 0, pivot_highlights = [], rng = 42\<rparr>)))"
  using quicksort_randomized_sorted [OF lcg_randint_ok,
    of "\<lparr>racers = [new_racer 0 ''Flash'' RED 100 30 70, new_racer 1 ''Turbo'' BLUE 90 25 80,
                   new_racer 2 ''Nitro'' GREEN 110 35 65],
        sort_operations = 0, pivot_highlights = [], rng = 42\<rparr>"]
  by (simp add: lcg_randint_ok)

text \<open>C3: In either mode, sorting only reorders the racers: the multiset of
  entities, each with every attribute but its lane, is unchanged.\<close>

theorem sort_racers_permutation:
  "randint_ok R \<Longrightarrow>
   mset (map racer_body (racers (sort_racers mode R s))) = mset (map racer_body (racers s))"
  using sorts_range_whole [OF quicksort_randomized_whole [of R s]]
    sorts_range_whole [OF quicksort_deterministic_whole [of s]]
  by (simp add: sort_racers_def)

theorem sort_racers_permutation_witness:
  "randint_ok lcg \<and>
   mset (map racer_body (racers (sort_racers RANDOMIZED lcg
     \<lparr>racers = [new_racer 0 ''Flash'' RED 100 30 70, new_racer 1 ''Turbo'' BLUE 90 25 80],
      sort_operations = 0, pivot_highlights = [], rng = 7\<rparr>)))
   = mset (map racer_body [new_racer 0 ''Flash'' RED 100 30 70, new_racer 1 ''Turbo'' BLUE 90 25 80])"
  using sort_racers_permutation [OF lcg_randint_ok, of RANDOMIZED
    "\<lparr>racers = [new_racer 0 ''Flash'' RED 100 30 70, new_racer 1 ''Turbo'' BLUE 90 25 80],
      sort_operations = 0, pivot_highlights = [], rng = 7\<rparr>"]
  by (simp add: lcg_randint_ok)

text \<open>C21: The keys of the racers after \<open>sort_racers\<close>, in either mode, are
  exactly the library sort of the keys before: the in-place quicksort is
  equivalent, on keys, to the reference \<open>sort\<close>.\<close>

theorem sort_racers_keys_equiv:
  assumes "randint_ok R"
  shows "map sort_value (racers (sort_racers mode R s)) = sort (map sort_value (racers s))"
proof -
  have "sorts_range (racers s) (racers (sort_racers mode R s)) 0 (int (length (racers s)) - 1)"
    using quicksort_randomized_whole [OF assms, of s] quicksort_deterministic_whole [of s]
    by (simp add: sort_racers_def)
  note w = sorts_range_whole [OF this]
  have s: "sorted (map sort_value (racers (sort_racers mode R s)))" using w by blast
  have m: "mset (map racer_body (racers (sort_racers mode R s))) = mset (map racer_body (racers s))"
    using w by blast
  have "mset (map sort_value (map racer_body (racers (sort_racers mode R s)))) =
        mset (map sort_value (map racer_body (racers s)))"
    using m by (simp only: mset_map)
  then have eq: "mset (map sort_value (racers (sort_racers mode R s))) = mset (map sort_value (racers s))"
    by (simp add: comp_def)
  show ?thesis using properties_for_sort [OF eq s] by simp
qed

theorem sort_racers_keys_equiv_witness:
  "randint_ok lcg \<and>
   map sort_value (racers (sort_racers RANDOMIZED lcg
     \<lparr>racers = [new_racer 0 ''Flash'' RED 100 30 80, new_racer 1 ''Turbo'' BLUE 80 20 60],
      sort_operations = 0, pivot_highlights = [], rng = 7\<rparr>)) =
   sort (map sort_value [new_racer 0 ''Flash'' RED 100 30 80, new_racer 1 ''Turbo'' BLUE 80 20 60])"
  using sort_racers_keys_equiv [OF lcg_randint_ok, of RANDOMIZED
      "\<lparr>racers = [new_racer 0 ''Flash'' RED 100 30 80, new_racer 1 ''Turbo'' BLUE 80 20 60],
        sort_operations = 0, pivot_highlights = [], rng = 7\<rparr>"]
  by (simp add: lcg_randint_ok)

end
