(* ===== verification/Instrumentation.thy ===== *)
theory Instrumentation
  imports Quicksort
begin

text \<open>
  What the sorting engine does besides sorting (\<open>src/project/code.py\<close>,
  lines 121-162): the lanes it writes, the instrumentation it records
  (\<open>sort_operations\<close>, \<open>pivot_highlights\<close>), the fields it leaves alone, and
  its exact behaviour on the spec's fixtures. The deterministic sort keeps
  every cell's lane, so lanes end where they started; the randomized sort's
  extra swap (line 129) moves whole objects, so there lanes are only permuted.
  Each call with \<open>low < high\<close> records one highlight and one operation, so a
  list of \<open>n\<close> racers costs at most \<open>n - 1\<close> partitions, and exactly \<open>n - 1\<close>
  on an already sorted list in deterministic mode.
\<close>

definition asc6 :: "unit engine" where
  "asc6 = \<lparr>racers = [new_racer 0 ''Flash'' RED 80 20 60, new_racer 1 ''Turbo'' BLUE 85 22 70,
                     new_racer 2 ''Nitro'' GREEN 90 25 80, new_racer 3 ''Blaze'' YELLOW 100 30 85,
                     new_racer 4 ''Storm'' PURPLE 110 35 90, new_racer 5 ''Rocket'' CYAN 120 40 95],
          sort_operations = 0, pivot_highlights = [], rng = ()\<rparr>"

definition sorted2 :: "nat engine" where
  "sorted2 = \<lparr>racers = [(new_racer 0 ''Flash'' RED 80 20 60)\<lparr>lane := 0\<rparr>,
                        (new_racer 1 ''Turbo'' BLUE 120 40 95)\<lparr>lane := 1\<rparr>],
             sort_operations = 0, pivot_highlights = [], rng = 0\<rparr>"

lemma quicksort_deterministic_length [simp]:
  "length (racers (quicksort_deterministic low high s)) = length (racers s)"
proof (induction low high s rule: quicksort_deterministic_induct)
  case (step low high s p a)
  then show ?case
    using partition_length [of "racers s" low high]
    by (simp add: quicksort_deterministic_step [OF step.hyps])
qed (simp add: quicksort_deterministic_stop)

lemma quicksort_randomized_length [simp]:
  "length (racers (quicksort_randomized R low high s)) = length (racers s)"
proof (induction low high s rule: quicksort_randomized_induct [where R = R])
  case (step low high s q g p a)
  then show ?case
    using partition_length [of "swap_at (racers s) low q" low high]
    by (simp add: quicksort_randomized_step [OF step.hyps])
qed (simp add: quicksort_randomized_stop)

lemma quicksort_deterministic_lanes:
  "0 \<le> low \<Longrightarrow> high < int (length (racers s)) \<Longrightarrow>
   map lane (racers (quicksort_deterministic low high s)) = map lane (racers s)"
proof (induction low high s rule: quicksort_deterministic_induct)
  case (step low high s p a)
  have pr: "low \<le> p" "p \<le> high" using partition_index [of low high "racers s"] step by simp_all
  have la: "length a = length (racers s)" using partition_length [of "racers s" low high] step by simp
  have "map lane a = map lane (racers s)"
    using partition_lanes [of low high "racers s"] step by simp
  then show ?case
    using step.IH step.prems pr la by (simp add: quicksort_deterministic_step [OF step.hyps])
qed (simp add: quicksort_deterministic_stop)

lemma quicksort_randomized_lanes:
  "randint_ok R \<Longrightarrow> 0 \<le> low \<Longrightarrow> high < int (length (racers s)) \<Longrightarrow>
   mset (map lane (racers (quicksort_randomized R low high s))) = mset (map lane (racers s))"
proof (induction low high s rule: quicksort_randomized_induct [where R = R])
  case (step low high s q g p a)
  have qr: "low \<le> q" "q \<le> high" using randint_okD [OF step.prems(1), of low high "rng s"] step.hyps by auto
  have ok: "idx_ok (racers s) low" "idx_ok (racers s) q" using qr step.prems step.hyps by (auto simp: idx_ok_def)
  have pr: "low \<le> p" "p \<le> high"
    using partition_index [of low high "swap_at (racers s) low q"] step.hyps by simp_all
  have la: "length a = length (racers s)"
    using partition_length [of "swap_at (racers s) low q" low high] step.hyps by simp
  have "map lane a = map lane (swap_at (racers s) low q)"
    using partition_lanes [of low high "swap_at (racers s) low q"] step by simp
  also have "\<dots> = swap_at (map lane (racers s)) low q" using ok by (rule map_swap_at)
  finally have "mset (map lane a) = mset (map lane (racers s))" using ok by simp
  then show ?case
    using step.IH step.prems pr la by (simp add: quicksort_randomized_step [OF step.hyps])
qed (simp add: quicksort_randomized_stop)


lemma calls_bound:
  "low < high \<Longrightarrow> low \<le> p \<Longrightarrow> p \<le> high \<Longrightarrow>
   a \<le> nat (p - 1 - low) \<Longrightarrow> b \<le> nat (high - (p + 1)) \<Longrightarrow> Suc (a + b) \<le> nat (high - low)"
  by linarith

text \<open>Each partition call settles one pivot and leaves two sides, so a range of
  \<open>m\<close> cells costs at least \<open>(m - 1) / 2\<close> calls.\<close>

lemma calls_lower_bound:
  "low \<le> p \<Longrightarrow> p \<le> high \<Longrightarrow>
   nat (p - 1 - low + 1) \<le> 2 * a + 1 \<Longrightarrow> nat (high - (p + 1) + 1) \<le> 2 * b + 1 \<Longrightarrow>
   nat (high - low + 1) \<le> 2 * Suc (a + b) + 1"
  unfolding nat_le_iff by simp

lemma quicksort_deterministic_instr:
  "\<exists>hs. pivot_highlights (quicksort_deterministic low high s) = pivot_highlights s @ hs \<and>
        sort_operations (quicksort_deterministic low high s) = sort_operations s + length hs \<and>
        length hs \<le> nat (high - low) \<and> nat (high - low + 1) \<le> 2 * length hs + 1 \<and>
        (\<forall>h \<in> set hs. low < h \<and> h \<le> high)"
proof (induction low high s rule: quicksort_deterministic_induct)
  case (stop low high s)
  then show ?case by (simp add: quicksort_deterministic_stop)
next
  case (step low high s p a)
  have pr: "low \<le> p" "p \<le> high" using partition_index [of low high "racers s"] step by simp_all
  obtain hs1 where h1: "pivot_highlights (quicksort_deterministic low (p - 1)
      (s\<lparr>pivot_highlights := pivot_highlights s @ [high], sort_operations := sort_operations s + 1, racers := a\<rparr>))
      = pivot_highlights s @ [high] @ hs1"
    and o1: "sort_operations (quicksort_deterministic low (p - 1)
      (s\<lparr>pivot_highlights := pivot_highlights s @ [high], sort_operations := sort_operations s + 1, racers := a\<rparr>))
      = sort_operations s + 1 + length hs1"
    and l1: "length hs1 \<le> nat (p - 1 - low)" and m1: "nat (p - 1 - low + 1) \<le> 2 * length hs1 + 1"
    and r1: "\<forall>h \<in> set hs1. low < h \<and> h \<le> p - 1"
    using step.IH(1) by auto
  obtain hs2 where h2: "pivot_highlights (quicksort_deterministic low high s) = pivot_highlights s @ [high] @ hs1 @ hs2"
    and o2: "sort_operations (quicksort_deterministic low high s) = sort_operations s + 1 + length hs1 + length hs2"
    and l2: "length hs2 \<le> nat (high - (p + 1))" and m2: "nat (high - (p + 1) + 1) \<le> 2 * length hs2 + 1"
    and r2: "\<forall>h \<in> set hs2. p + 1 < h \<and> h \<le> high"
    using step.IH(2) h1 o1 by (auto simp: quicksort_deterministic_step [OF step.hyps])
  show ?case
  proof (intro exI conjI)
    show "pivot_highlights (quicksort_deterministic low high s) = pivot_highlights s @ ([high] @ hs1 @ hs2)"
      using h2 by simp
    show "sort_operations (quicksort_deterministic low high s) = sort_operations s + length ([high] @ hs1 @ hs2)"
      using o2 by simp
    show "length ([high] @ hs1 @ hs2) \<le> nat (high - low)"
      using calls_bound [OF step.hyps(1) pr l1 l2] by simp
    show "nat (high - low + 1) \<le> 2 * length ([high] @ hs1 @ hs2) + 1"
      using calls_lower_bound [OF pr m1 m2] by simp
    show "\<forall>h \<in> set ([high] @ hs1 @ hs2). low < h \<and> h \<le> high"
      using r1 r2 pr step.hyps(1) by auto
  qed
qed


lemma quicksort_randomized_instr:
  "randint_ok R \<Longrightarrow>
   \<exists>hs. pivot_highlights (quicksort_randomized R low high s) = pivot_highlights s @ hs \<and>
        sort_operations (quicksort_randomized R low high s) = sort_operations s + length hs \<and>
        length hs \<le> nat (high - low) \<and> nat (high - low + 1) \<le> 2 * length hs + 1 \<and>
        (\<forall>h \<in> set hs. low \<le> h \<and> h \<le> high)"
proof (induction low high s rule: quicksort_randomized_induct [where R = R])
  case (stop low high s)
  then show ?case by (simp add: quicksort_randomized_stop)
next
  case (step low high s q g p a)
  have qr: "low \<le> q" "q \<le> high" using randint_okD [OF step.prems(1), of low high "rng s"] step.hyps by auto
  have pr: "low \<le> p" "p \<le> high"
    using partition_index [of low high "swap_at (racers s) low q"] step.hyps by simp_all
  let ?s1 = "s\<lparr>rng := g, pivot_highlights := pivot_highlights s @ [q],
                 sort_operations := sort_operations s + 1, racers := a\<rparr>"
  obtain hs1 where h1: "pivot_highlights (quicksort_randomized R low (p - 1) ?s1) = pivot_highlights s @ [q] @ hs1"
    and o1: "sort_operations (quicksort_randomized R low (p - 1) ?s1) = sort_operations s + 1 + length hs1"
    and l1: "length hs1 \<le> nat (p - 1 - low)" and m1: "nat (p - 1 - low + 1) \<le> 2 * length hs1 + 1"
    and r1: "\<forall>h \<in> set hs1. low \<le> h \<and> h \<le> p - 1"
    using step.IH(1) step.prems by auto
  obtain hs2 where h2: "pivot_highlights (quicksort_randomized R low high s) = pivot_highlights s @ [q] @ hs1 @ hs2"
    and o2: "sort_operations (quicksort_randomized R low high s) = sort_operations s + 1 + length hs1 + length hs2"
    and l2: "length hs2 \<le> nat (high - (p + 1))" and m2: "nat (high - (p + 1) + 1) \<le> 2 * length hs2 + 1"
    and r2: "\<forall>h \<in> set hs2. p + 1 \<le> h \<and> h \<le> high"
    using step.IH(2) step.prems h1 o1 by (auto simp: quicksort_randomized_step [OF step.hyps])
  show ?case
  proof (intro exI conjI)
    show "pivot_highlights (quicksort_randomized R low high s) = pivot_highlights s @ ([q] @ hs1 @ hs2)"
      using h2 by simp
    show "sort_operations (quicksort_randomized R low high s) = sort_operations s + length ([q] @ hs1 @ hs2)"
      using o2 by simp
    show "length ([q] @ hs1 @ hs2) \<le> nat (high - low)"
      using calls_bound [OF step.hyps(1) pr l1 l2] by simp
    show "nat (high - low + 1) \<le> 2 * length ([q] @ hs1 @ hs2) + 1"
      using calls_lower_bound [OF pr m1 m2] by simp
    show "\<forall>h \<in> set ([q] @ hs1 @ hs2). low \<le> h \<and> h \<le> high"
      using r1 r2 pr qr by auto
  qed
qed

lemma quicksort_deterministic_frame:
  "rng (quicksort_deterministic low high s) = rng s \<and>
   engine.more (quicksort_deterministic low high s) = engine.more s"
proof (induction low high s rule: quicksort_deterministic_induct)
  case (step low high s p a)
  then show ?case by (simp add: quicksort_deterministic_step [OF step.hyps])
qed (simp add: quicksort_deterministic_stop)

lemma quicksort_randomized_frame:
  "engine.more (quicksort_randomized R low high s) = engine.more s"
proof (induction low high s rule: quicksort_randomized_induct [where R = R])
  case (step low high s q g p a)
  then show ?case by (simp add: quicksort_randomized_step [OF step.hyps])
qed (simp add: quicksort_randomized_stop)




lemma partition_loop_sorted_input:
  "i = j - 1 \<Longrightarrow> 0 \<le> j \<Longrightarrow> j \<le> high \<Longrightarrow>
   \<forall>k. j \<le> int k \<and> int k < high \<longrightarrow> sort_value (arr ! k) \<le> pivot \<Longrightarrow>
   partition_loop pivot high j i arr = (high - 1, arr)"
proof (induction pivot high j i arr rule: partition_loop_induct)
  case (le pivot high j i arr)
  then show ?case by (simp add: partition_loop_eqs)
next
  case (gt pivot high j i arr)
  then have "j \<le> int (nat j) \<and> int (nat j) < high" by simp
  with gt.prems(4) gt.hyps(2) show ?case by blast
qed (simp add: partition_loop_eqs)


lemma partition_sorted_input:
  assumes "sorted_between sort_value arr low high" "0 \<le> low" "low \<le> high" "high < int (length arr)"
  shows "partition arr low high = (high, arr)"
proof -
  have "\<forall>k. low \<le> int k \<and> int k < high \<longrightarrow> sort_value (arr ! k) \<le> sort_value (arr ! nat high)"
  proof (intro allI impI)
    fix k assume k: "low \<le> int k \<and> int k < high"
    then have "k \<le> nat high" "int (nat high) \<le> high" "nat high < length arr" using assms(2,4) by auto
    then show "sort_value (arr ! k) \<le> sort_value (arr ! nat high)"
      using assms(1) k unfolding sorted_between_def by blast
  qed
  then have "partition_loop (sort_value (arr ! nat high)) high low (low - 1) arr = (high - 1, arr)"
    using assms(2,3) by (intro partition_loop_sorted_input) simp_all
  then show ?thesis by (simp add: partition_split)
qed

lemma quicksort_deterministic_sorted_input:
  "sorted_between sort_value (racers s) low high \<Longrightarrow> 0 \<le> low \<Longrightarrow> high < int (length (racers s)) \<Longrightarrow>
   quicksort_deterministic low high s =
     s\<lparr>pivot_highlights := pivot_highlights s @ rev [low + 1..high],
       sort_operations := sort_operations s + nat (high - low)\<rparr>"
proof (induction low high s rule: quicksort_deterministic_induct)
  case (stop low high s)
  then show ?case by (simp add: quicksort_deterministic_stop)
next
  case (step low high s p a)
  have "partition (racers s) low high = (high, racers s)"
    using step by (intro partition_sorted_input) simp_all
  then have pa: "p = high" "a = racers s" using step.hyps(2) by simp_all
  have "sorted_between sort_value (racers s) low (high - 1)"
    using step.prems(1) by (rule sorted_between_mono) simp_all
  then have "quicksort_deterministic low (high - 1)
      (s\<lparr>pivot_highlights := pivot_highlights s @ [high], sort_operations := sort_operations s + 1, racers := racers s\<rparr>)
    = s\<lparr>pivot_highlights := pivot_highlights s @ [high] @ rev [low + 1..high - 1],
        sort_operations := sort_operations s + 1 + nat (high - 1 - low)\<rparr>"
    using step.IH(1) step.prems pa by simp
  moreover have "rev [low + 1..high] = high # rev [low + 1..high - 1]"
    using step.hyps(1) by (simp add: upto_rec2)
  moreover have "1 + nat (high - 1 - low) = nat (high - low)" using step.hyps(1) by simp
  ultimately show ?case
    by (simp add: quicksort_deterministic_step [OF step.hyps] pa quicksort_deterministic_stop)
qed


subsection \<open>Properties of the engine\<close>

text \<open>C4: In deterministic mode the sort never moves a lane: every slot of
  \<open>self.racers\<close> ends with the lane it started with, because the lane swap of
  \<open>partition\<close> (line 157) undoes the lane move of the object swap (line 155).
  The lane therefore stays with the slot, not with the entity.\<close>

theorem quicksort_deterministic_keeps_lanes:
  "map lane (racers (quicksort_deterministic 0 (int (length (racers s)) - 1) s)) = map lane (racers s)"
  by (rule quicksort_deterministic_lanes) simp_all

text \<open>C5: In either mode the lanes are only permuted: the multiset of lane values
  after the sort equals the one before, so lanes \<open>{0, ..., N-1}\<close> without
  duplicates stay so.\<close>

theorem sort_racers_lane_multiset:
  "randint_ok R \<Longrightarrow> mset (map lane (racers (sort_racers mode R s))) = mset (map lane (racers s))"
  using quicksort_randomized_lanes [of R 0 "int (length (racers s)) - 1" s]
    arg_cong [OF quicksort_deterministic_lanes [of 0 "int (length (racers s)) - 1" s], of mset]
  by (simp add: sort_racers_def)

theorem sort_racers_lane_multiset_witness:
  "randint_ok lcg \<and>
   mset (map lane (racers (sort_racers RANDOMIZED lcg sorted2))) = mset (map lane (racers sorted2))"
  using sort_racers_lane_multiset [OF lcg_randint_ok, of RANDOMIZED sorted2] by (simp add: lcg_randint_ok)

text \<open>C6: A sort appends its pivot highlights \<open>hs\<close> to \<open>pivot_highlights\<close>
  and adds exactly their number to \<open>sort_operations\<close>: one highlight and one
  count per partition call. For \<open>N\<close> racers it makes at most \<open>N - 1\<close> and at
  least \<open>(N - 1) / 2\<close> calls (each call settles one pivot), so a list of two or
  more racers always leaves a highlight, and every highlight is an index of
  the list.\<close>

theorem sort_racers_instrumentation:
  "randint_ok R \<Longrightarrow>
   \<exists>hs. pivot_highlights (sort_racers mode R s) = pivot_highlights s @ hs \<and>
        sort_operations (sort_racers mode R s) = sort_operations s + length hs \<and>
        length hs \<le> length (racers s) - 1 \<and> length (racers s) \<le> 2 * length hs + 1 \<and>
        (\<forall>h \<in> set hs. 0 \<le> h \<and> h < int (length (racers s)))"
proof (cases "mode = RANDOMIZED")
  case True
  assume R: "randint_ok R"
  show ?thesis
    using quicksort_randomized_instr [OF R, of 0 "int (length (racers s)) - 1" s] True
    by (fastforce simp: sort_racers_def)
next
  case False
  show ?thesis
    using quicksort_deterministic_instr [of 0 "int (length (racers s)) - 1" s] False
    by (fastforce simp: sort_racers_def)
qed

theorem sort_racers_instrumentation_witness:
  "randint_ok lcg \<and>
   (\<exists>hs. pivot_highlights (sort_racers RANDOMIZED lcg sorted2) = pivot_highlights sorted2 @ hs \<and>
        sort_operations (sort_racers RANDOMIZED lcg sorted2) = sort_operations sorted2 + length hs \<and>
        length hs \<le> length (racers sorted2) - 1 \<and> length (racers sorted2) \<le> 2 * length hs + 1 \<and>
        list_all (\<lambda>h. 0 \<le> h \<and> h < int (length (racers sorted2))) hs)"
  using sort_racers_instrumentation [OF lcg_randint_ok, of RANDOMIZED sorted2] by (simp add: lcg_randint_ok list_all_iff)

text \<open>C7: On racers already ascending by key, deterministic mode changes no
  racer, records the highlights \<open>N-1, N-2, ..., 1\<close> and counts exactly
  \<open>N - 1\<close> partition calls (the spec's fixture expects \<open>N\<close>).\<close>

theorem quicksort_deterministic_on_sorted:
  "sorted (map sort_value (racers s)) \<Longrightarrow>
   quicksort_deterministic 0 (int (length (racers s)) - 1) s =
     s\<lparr>pivot_highlights := pivot_highlights s @ rev [1..int (length (racers s)) - 1],
       sort_operations := sort_operations s + (length (racers s) - 1)\<rparr>"
proof -
  assume "sorted (map sort_value (racers s))"
  then have "sorted_between sort_value (racers s) 0 (int (length (racers s)) - 1)"
    by (simp add: sorted_between_iff_sorted)
  then show ?thesis
    using quicksort_deterministic_sorted_input [of s 0 "int (length (racers s)) - 1"] by (simp add: nat_diff_distrib)
qed

theorem quicksort_deterministic_on_sorted_witness:
  "sorted (map sort_value (racers asc6)) \<and>
   sort_operations (quicksort_deterministic 0 5 asc6) = 5 \<and>
   pivot_highlights (quicksort_deterministic 0 5 asc6) = [5, 4, 3, 2, 1] \<and>
   racers (quicksort_deterministic 0 5 asc6) = racers asc6"
proof -
  have s: "sorted (map sort_value (racers asc6))"
    by (simp add: asc6_def new_racer_def calculate_sort_value_def)
  have "length (racers asc6) = 6" by (simp add: asc6_def)
  then show ?thesis
    using quicksort_deterministic_on_sorted [OF s] s by (simp add: asc6_def upto.simps)
qed

text \<open>An instance behind the finding on line 129: in randomized mode an already
  sorted list may come back with the same order but exchanged lanes. With the
  seeded source, two ascending racers in lanes \<open>0, 1\<close> end in lanes \<open>1, 0\<close>.\<close>

theorem quicksort_randomized_sorted_input_lanes:
  "map name (racers (quicksort_randomized lcg 0 1 sorted2)) = map name (racers sorted2) \<and>
   map lane (racers sorted2) = [0, 1] \<and>
   map lane (racers (quicksort_randomized lcg 0 1 sorted2)) = [1, 0]"
  by (simp add: sorted2_def quicksort_randomized.simps lcg_def lcg_next_def partition_def
      partition_loop.simps swap_at_def swap_lanes_def new_racer_def calculate_sort_value_def Let_def)

end
