(* ===== verification/Median.thy ===== *)
theory Median
  imports Quicksort
begin

text \<open>
  \<open>RaceSorterGame.find_median\<close> (\<open>src/project/code.py\<close>, lines 164-168): the
  racer at index \<open>len // 2\<close> of a copy sorted by key. Python's \<open>sorted\<close> is
  stable, and so is \<open>sort_key\<close> (insertion by key), so the copy is the same list
  of racers; indexing is Python's, so the empty list raises IndexError, which
  the model returns as \<open>Inl IndexError\<close>. The lemmas show that the result is the
  upper median of the keys, that it depends only on the multiset of keys, and
  that on a list already sorted by key it is the racer in the middle slot.
\<close>

definition find_median :: "racer list \<Rightarrow> py_error + racer" where
  "find_median arr =
     (let sorted_by_value = sort_key sort_value arr;
          median_index = int (length sorted_by_value) div 2
      in py_getitem sorted_by_value median_index)"

definition keys6 :: "racer list" where
  "keys6 = [new_racer 0 ''Flash'' RED 60 0 0, new_racer 1 ''Turbo'' BLUE 20 0 0,
            new_racer 2 ''Nitro'' GREEN 120 0 0, new_racer 3 ''Blaze'' YELLOW 80 0 0,
            new_racer 4 ''Storm'' PURPLE 40 0 0, new_racer 5 ''Rocket'' CYAN 100 0 0]"

lemma map_sort_key_sort: "map f (sort_key f xs) = sort (map f xs)"
  by (rule properties_for_sort [symmetric]) simp_all

lemma find_median_eq:
  "find_median arr =
     (if arr = [] then Inl IndexError else Inr (sort_key sort_value arr ! (length arr div 2)))"
proof (cases "arr = []")
  case False
  then have "int (length arr) div 2 < int (length arr)" by (intro int_div_less_self) simp_all
  moreover have "nat (int (length arr) div 2) = length arr div 2" by (simp add: nat_div_distrib)
  ultimately show ?thesis
    using False by (simp add: find_median_def py_getitem_def Let_def)
qed (simp add: find_median_def py_getitem_def)


lemma sort_mset_cong: "mset xs = mset ys \<Longrightarrow> sort xs = sort ys"
  by (rule properties_for_sort) simp_all

lemma median_key:
  "arr \<noteq> [] \<Longrightarrow>
   sort_value (sort_key sort_value arr ! (length arr div 2)) = sort (map sort_value arr) ! (length arr div 2)"
  by (simp flip: map_sort_key_sort)

lemma find_median_Inr:
  "arr \<noteq> [] \<Longrightarrow> find_median arr = Inr (sort_key sort_value arr ! (length arr div 2))"
  by (simp add: find_median_eq)

text \<open>C8: \<open>find_median\<close> fails, with IndexError, exactly on the empty list.\<close>

theorem find_median_error: "find_median arr = Inl IndexError \<longleftrightarrow> arr = []"
  by (simp add: find_median_eq)

text \<open>C9: On a non-empty list \<open>find_median\<close> returns one of the racers, whose key
  is the element at index \<open>len // 2\<close> of the sorted keys (the upper median).\<close>

theorem find_median_upper_median:
  "arr \<noteq> [] \<Longrightarrow>
   \<exists>r. find_median arr = Inr r \<and> r \<in> set arr \<and>
       sort_value r = sort (map sort_value arr) ! (length arr div 2)"
proof -
  assume ne: "arr \<noteq> []"
  let ?r = "sort_key sort_value arr ! (length arr div 2)"
  have i: "length arr div 2 < length (sort_key sort_value arr)" using ne by simp
  have "?r \<in> set arr" using nth_mem [OF i] by simp
  moreover have "sort_value ?r = sort (map sort_value arr) ! (length arr div 2)"
    using ne by (rule median_key)
  ultimately show ?thesis using find_median_Inr [OF ne] by blast
qed

theorem find_median_upper_median_witness:
  "keys6 \<noteq> [] \<and>
   (\<exists>r. find_median keys6 = Inr r \<and> r \<in> set keys6 \<and>
        sort_value r = sort (map sort_value keys6) ! (length keys6 div 2))"
  using find_median_upper_median [of keys6] by (simp add: keys6_def)

text \<open>C10: On a list already ascending by key, \<open>find_median\<close> returns the racer
  in the middle slot \<open>len // 2\<close> itself: the stable sort of a sorted list is the
  list.\<close>

theorem find_median_of_sorted:
  "sorted (map sort_value arr) \<Longrightarrow> arr \<noteq> [] \<Longrightarrow> find_median arr = Inr (arr ! (length arr div 2))"
  by (simp add: find_median_Inr sort_key_id_if_sorted)

theorem find_median_of_sorted_witness:
  "sorted (map sort_value [new_racer 0 ''Flash'' RED 80 20 60, new_racer 1 ''Turbo'' BLUE 120 40 95]) \<and>
   [new_racer 0 ''Flash'' RED 80 20 60, new_racer 1 ''Turbo'' BLUE 120 40 95] \<noteq> [] \<and>
   find_median [new_racer 0 ''Flash'' RED 80 20 60, new_racer 1 ''Turbo'' BLUE 120 40 95]
     = Inr (new_racer 1 ''Turbo'' BLUE 120 40 95)"
proof -
  have s: "sorted (map sort_value [new_racer 0 ''Flash'' RED 80 20 60, new_racer 1 ''Turbo'' BLUE 120 40 95])"
    by (simp add: new_racer_def calculate_sort_value_def)
  show ?thesis using find_median_of_sorted [OF s] s by simp
qed

text \<open>C11: The key of the racer \<open>find_median\<close> returns, and whether it fails,
  depend only on the multiset of keys: not on the order of the list, nor on
  lanes or any other attribute.\<close>

theorem find_median_key_mset:
  "mset (map sort_value xs) = mset (map sort_value ys) \<Longrightarrow>
   map_sum id sort_value (find_median xs) = map_sum id sort_value (find_median ys)"
proof -
  assume m: "mset (map sort_value xs) = mset (map sort_value ys)"
  then have l: "length xs = length ys" by (metis length_map mset_eq_length)
  have s: "sort (map sort_value xs) = sort (map sort_value ys)" using m by (rule sort_mset_cong)
  have "sort_value (sort_key sort_value xs ! (length xs div 2))
      = sort_value (sort_key sort_value ys ! (length ys div 2))" if "xs \<noteq> []"
  proof -
    from that l have ys: "ys \<noteq> []" by auto
    show ?thesis using median_key [OF that] median_key [OF ys] s l by simp
  qed
  then show ?thesis using l by (auto simp: find_median_eq)
qed

theorem find_median_key_mset_witness:
  "mset (map sort_value keys6) = mset (map sort_value (rev keys6)) \<and>
   map_sum id sort_value (find_median keys6) = map_sum id sort_value (find_median (rev keys6))"
  using find_median_key_mset [of keys6 "rev keys6"] by simp

end
