(* ===== verification/Registry.thy ===== *)
theory Registry
  imports Quicksort
begin

text \<open>
  The racer registry: \<open>RaceSorterGame.init_racers\<close> (\<open>src/project/code.py\<close>,
  lines 105-119) rebuilds \<open>self.racers\<close> from six fresh \<open>Racer\<close> objects whose
  attributes are drawn with \<open>random.uniform\<close>, in the order base speed,
  acceleration, handling, and sets each one's \<open>y\<close> and \<open>lane\<close> from its index.
  The record \<open>registry\<close> adds to the engine state the allocator \<open>next_oid\<close> of
  object identities (a ghost of the model: Python creates a fresh object for each
  \<open>Racer(...)\<close>), so that the racers of one batch have identities no earlier
  object had. The loop over \<open>range(6)\<close> is a fold over \<open>[0..<6]\<close>.
\<close>

record 'g registry = "'g engine" +
  next_oid :: nat

definition racer_names :: "string list" where
  "racer_names = [''Flash'', ''Turbo'', ''Nitro'', ''Blaze'', ''Storm'', ''Rocket'']"

definition racer_colors :: "color list" where
  "racer_colors = [RED, BLUE, GREEN, YELLOW, PURPLE, CYAN]"

definition init_racer_step ::
  "'g random_module \<Rightarrow> ('g, 'z) registry_scheme \<Rightarrow> nat \<Rightarrow> ('g, 'z) registry_scheme" where
  "init_racer_step R s i =
     (let (base_speed, g1) = rm_uniform R (rng s) 80 120;
          (acc, g2) = rm_uniform R g1 20 40;
          (handling, g3) = rm_uniform R g2 60 95;
          r = new_racer (next_oid s) (racer_names ! i) (racer_colors ! i) base_speed acc handling;
          r1 = r\<lparr>y_pos := 200 + int i * 60\<rparr>;
          r2 = r1\<lparr>lane := int i\<rparr>
      in s\<lparr>rng := g3, next_oid := next_oid s + 1, racers := racers s @ [r2]\<rparr>)"

definition init_racers :: "'g random_module \<Rightarrow> ('g, 'z) registry_scheme \<Rightarrow> ('g, 'z) registry_scheme" where
  "init_racers R s = foldl (init_racer_step R) (s\<lparr>racers := []\<rparr>) [0..<6]"

text \<open>What \<open>init_racers\<close> promises of the list it builds: six racers in lanes and
  rows \<open>0..5\<close> with the six names, fresh pairwise distinct identities, keys in
  the range the attribute ranges give, and the start-of-race values of the
  motion fields.\<close>

definition fresh_racer :: "int \<Rightarrow> racer \<Rightarrow> bool" where
  "fresh_racer i r \<longleftrightarrow>
     lane r = i \<and> y_pos r = 200 + i * 60 \<and> position r = 0 \<and> x_pos r = 100 \<and> speed r = 0 \<and>
     \<not> finished r \<and> finish_time r = 0 \<and> \<not> power_active r \<and> power_timer r = 0"


lemma init_racer_step_fields:
  "racers (init_racer_step R s i) = racers s @ [(new_racer (next_oid s) (racer_names ! i) (racer_colors ! i)
      (fst (rm_uniform R (rng s) 80 120))
      (fst (rm_uniform R (snd (rm_uniform R (rng s) 80 120)) 20 40))
      (fst (rm_uniform R (snd (rm_uniform R (snd (rm_uniform R (rng s) 80 120)) 20 40)) 60 95)))
      \<lparr>y_pos := 200 + int i * 60, lane := int i\<rparr>]"
  "next_oid (init_racer_step R s i) = next_oid s + 1"
  "sort_operations (init_racer_step R s i) = sort_operations s"
  "pivot_highlights (init_racer_step R s i) = pivot_highlights s"
  "registry.more (init_racer_step R s i) = registry.more s"
  by (simp_all add: init_racer_step_def split_beta Let_def)

lemma key_bounds:
  fixes bs acc h :: real
  assumes "80 \<le> bs" "bs \<le> 120" "20 \<le> acc" "acc \<le> 40" "60 \<le> h" "h \<le> 95"
  shows "58 \<le> bs * 0.5 + acc * 0.3 + h * 0.2 \<and> bs * 0.5 + acc * 0.3 + h * 0.2 \<le> 91"
  using assms by linarith

lemma init_racer_step_key:
  "uniform_ok R \<Longrightarrow> 58 \<le> sort_value (last (racers (init_racer_step R s i))) \<and>
                     sort_value (last (racers (init_racer_step R s i))) \<le> 91"
proof -
  assume u: "uniform_ok R"
  let ?g0 = "rng s"
  let ?g1 = "snd (rm_uniform R ?g0 80 120)" and ?g2 = "snd (rm_uniform R (snd (rm_uniform R ?g0 80 120)) 20 40)"
  have "80 \<le> fst (rm_uniform R ?g0 80 120) \<and> fst (rm_uniform R ?g0 80 120) \<le> 120"
    "20 \<le> fst (rm_uniform R ?g1 20 40) \<and> fst (rm_uniform R ?g1 20 40) \<le> 40"
    "60 \<le> fst (rm_uniform R ?g2 60 95) \<and> fst (rm_uniform R ?g2 60 95) \<le> 95"
    using uniform_okD [OF u] by simp_all
  then show ?thesis
    by (simp add: init_racer_step_fields sort_value_new_racer key_bounds)
qed

lemma init_fold:
  "racers s = [] \<Longrightarrow>
   length (racers (foldl (init_racer_step R) s [0..<k])) = k \<and>
   next_oid (foldl (init_racer_step R) s [0..<k]) = next_oid s + k \<and>
   sort_operations (foldl (init_racer_step R) s [0..<k]) = sort_operations s \<and>
   pivot_highlights (foldl (init_racer_step R) s [0..<k]) = pivot_highlights s \<and>
   registry.more (foldl (init_racer_step R) s [0..<k]) = registry.more s \<and>
   (\<forall>i<k. fresh_racer (int i) (racers (foldl (init_racer_step R) s [0..<k]) ! i) \<and>
          name (racers (foldl (init_racer_step R) s [0..<k]) ! i) = racer_names ! i \<and>
          oid (racers (foldl (init_racer_step R) s [0..<k]) ! i) = next_oid s + i \<and>
          (uniform_ok R \<longrightarrow> 58 \<le> sort_value (racers (foldl (init_racer_step R) s [0..<k]) ! i) \<and>
                            sort_value (racers (foldl (init_racer_step R) s [0..<k]) ! i) \<le> 91))"
proof (induction k)
  case 0
  then show ?case by simp
next
  case (Suc k)
  let ?t = "foldl (init_racer_step R) s [0..<k]"
  have IH: "length (racers ?t) = k" "next_oid ?t = next_oid s + k" using Suc by simp_all
  have e: "foldl (init_racer_step R) s [0..<Suc k] = init_racer_step R ?t k" by simp
  have last_key: "uniform_ok R \<Longrightarrow> 58 \<le> sort_value (racers (init_racer_step R ?t k) ! k) \<and>
                     sort_value (racers (init_racer_step R ?t k) ! k) \<le> 91"
    using init_racer_step_key [of R ?t k] IH(1) by (simp add: init_racer_step_fields nth_append)
  show ?case
  proof (intro conjI allI impI)
    fix i assume "i < Suc k"
    then consider "i < k" | "i = k" by linarith
    then show "fresh_racer (int i) (racers (foldl (init_racer_step R) s [0..<Suc k]) ! i)"
      and "name (racers (foldl (init_racer_step R) s [0..<Suc k]) ! i) = racer_names ! i"
      and "oid (racers (foldl (init_racer_step R) s [0..<Suc k]) ! i) = next_oid s + i"
      using Suc IH by (cases, simp_all add: e init_racer_step_fields nth_append fresh_racer_def new_racer_def)+
  next
    fix i assume "i < Suc k" "uniform_ok R"
    then consider "i < k" | "i = k" by linarith
    then show "58 \<le> sort_value (racers (foldl (init_racer_step R) s [0..<Suc k]) ! i)"
      and "sort_value (racers (foldl (init_racer_step R) s [0..<Suc k]) ! i) \<le> 91"
      using Suc IH last_key \<open>uniform_ok R\<close> by (cases, simp_all add: e init_racer_step_fields nth_append)+
  qed (use Suc IH in \<open>simp_all add: e init_racer_step_fields\<close>)
qed


lemma init_racers_facts:
  "length (racers (init_racers R s)) = 6 \<and> next_oid (init_racers R s) = next_oid s + 6 \<and>
   sort_operations (init_racers R s) = sort_operations s \<and>
   pivot_highlights (init_racers R s) = pivot_highlights s \<and>
   registry.more (init_racers R s) = registry.more s \<and>
   (\<forall>i<6. fresh_racer (int i) (racers (init_racers R s) ! i) \<and>
          name (racers (init_racers R s) ! i) = racer_names ! i \<and>
          oid (racers (init_racers R s) ! i) = next_oid s + i \<and>
          (uniform_ok R \<longrightarrow> 58 \<le> sort_value (racers (init_racers R s) ! i) \<and>
                            sort_value (racers (init_racers R s) ! i) \<le> 91))"
  using init_fold [of "s\<lparr>racers := []\<rparr>" R 6] by (simp add: init_racers_def)

lemma init_racer_step_attrs:
  assumes u: "uniform_ok R"
  shows "80 \<le> base_speed (last (racers (init_racer_step R s i))) \<and>
         base_speed (last (racers (init_racer_step R s i))) \<le> 120 \<and>
         20 \<le> acceleration (last (racers (init_racer_step R s i))) \<and>
         acceleration (last (racers (init_racer_step R s i))) \<le> 40 \<and>
         60 \<le> handling (last (racers (init_racer_step R s i))) \<and>
         handling (last (racers (init_racer_step R s i))) \<le> 95 \<and>
         sort_value (last (racers (init_racer_step R s i))) =
           calculate_sort_value (last (racers (init_racer_step R s i)))"
proof -
  let ?g0 = "rng s"
  let ?g1 = "snd (rm_uniform R ?g0 80 120)" and ?g2 = "snd (rm_uniform R (snd (rm_uniform R ?g0 80 120)) 20 40)"
  have "80 \<le> fst (rm_uniform R ?g0 80 120) \<and> fst (rm_uniform R ?g0 80 120) \<le> 120"
    "20 \<le> fst (rm_uniform R ?g1 20 40) \<and> fst (rm_uniform R ?g1 20 40) \<le> 40"
    "60 \<le> fst (rm_uniform R ?g2 60 95) \<and> fst (rm_uniform R ?g2 60 95) \<le> 95"
    using uniform_okD [OF u] by simp_all
  then show ?thesis
    by (simp add: init_racer_step_fields new_racer_def calculate_sort_value_def)
qed

lemma init_racer_step_snoc:
  "\<exists>x. racers (init_racer_step R s i) = racers s @ [x]"
  by (simp add: init_racer_step_fields)

lemma foldl_init_racer_step_all:
  fixes s :: "('g, 'z) registry_scheme"
  assumes "\<forall>r \<in> set (racers s). P r"
    "\<And>(t :: ('g, 'z) registry_scheme) i. i \<in> set ks \<Longrightarrow> P (last (racers (init_racer_step R t i)))"
  shows "\<forall>r \<in> set (racers (foldl (init_racer_step R) s ks)). P r"
  using assms
proof (induction ks arbitrary: s)
  case (Cons k ks)
  obtain x where x: "racers (init_racer_step R s k) = racers s @ [x]"
    using init_racer_step_snoc by blast
  have "P x" using Cons.prems(2) [of k s] x by simp
  then have "\<forall>r \<in> set (racers (init_racer_step R s k)). P r" using Cons.prems(1) x by simp
  moreover have "\<And>(t :: ('g, 'z) registry_scheme) i. i \<in> set ks \<Longrightarrow> P (last (racers (init_racer_step R t i)))"
    by (simp add: Cons.prems(2))
  ultimately have "\<forall>r \<in> set (racers (foldl (init_racer_step R) (init_racer_step R s k) ks)). P r"
    by (rule Cons.IH)
  then show ?case by simp
qed simp

lemma init_racers_all:
  fixes s :: "('g, 'z) registry_scheme"
  shows "(\<And>(t :: ('g, 'z) registry_scheme) i. i < 6 \<Longrightarrow> P (last (racers (init_racer_step R t i)))) \<Longrightarrow>
         \<forall>r \<in> set (racers (init_racers R s)). P r"
  unfolding init_racers_def by (rule foldl_init_racer_step_all) simp_all

lemma init_racer_step_color:
  "i < 6 \<Longrightarrow> color (last (racers (init_racer_step R s i))) \<in> set racer_colors"
  using nth_mem [of i racer_colors] by (simp add: init_racer_step_fields new_racer_def racer_colors_def)

text \<open>C12: \<open>init_racers\<close> builds six racers named Flash, Turbo, Nitro, Blaze,
  Storm and Rocket, with fresh distinct identities, each in the lane and row of
  its index with the motion fields at their start values, and, since each
  attribute is drawn from its \<open>uniform\<close> range, each key in \<open>[58, 91]\<close>.\<close>

theorem init_racers_spec:
  "uniform_ok R \<Longrightarrow>
   length (racers (init_racers R s)) = 6 \<and>
   map name (racers (init_racers R s)) = racer_names \<and>
   map oid (racers (init_racers R s)) = [next_oid s..<next_oid s + 6] \<and>
   (\<forall>i<6. fresh_racer (int i) (racers (init_racers R s) ! i)) \<and>
   (\<forall>r \<in> set (racers (init_racers R s)). 58 \<le> sort_value r \<and> sort_value r \<le> 91)"
proof -
  assume u: "uniform_ok R"
  note f = init_racers_facts [of R s]
  have "map name (racers (init_racers R s)) = racer_names"
    using f by (intro nth_equalityI) (simp_all add: racer_names_def)
  moreover have "map oid (racers (init_racers R s)) = [next_oid s..<next_oid s + 6]"
    using f by (intro nth_equalityI) simp_all
  moreover have "\<forall>r \<in> set (racers (init_racers R s)). 58 \<le> sort_value r \<and> sort_value r \<le> 91"
    using f u by (auto simp: in_set_conv_nth)
  ultimately show ?thesis using f by simp
qed

theorem init_racers_spec_witness:
  "uniform_ok lcg \<and>
   length (racers (init_racers lcg \<lparr>racers = [], sort_operations = 0, pivot_highlights = [], rng = 1, next_oid = 0\<rparr>)) = 6 \<and>
   map name (racers (init_racers lcg \<lparr>racers = [], sort_operations = 0, pivot_highlights = [], rng = 1, next_oid = 0\<rparr>)) = racer_names \<and>
   map oid (racers (init_racers lcg \<lparr>racers = [], sort_operations = 0, pivot_highlights = [], rng = 1, next_oid = 0\<rparr>)) = [0..<6] \<and>
   list_all (\<lambda>r. 58 \<le> sort_value r \<and> sort_value r \<le> 91)
     (racers (init_racers lcg \<lparr>racers = [], sort_operations = 0, pivot_highlights = [], rng = 1, next_oid = 0\<rparr>))"
  using init_racers_spec [OF lcg_uniform_ok,
      of "\<lparr>racers = [], sort_operations = 0, pivot_highlights = [], rng = 1, next_oid = 0\<rparr>"]
  by (simp add: lcg_uniform_ok list_all_iff)

end
