(* ===== verification/Game.thy ===== *)
theory Game
  imports Instrumentation Median Registry
begin

text \<open>
  The race lifecycle: class \<open>RaceSorterGame\<close> of \<open>src/project/code.py\<close> apart
  from its drawing methods. The record \<open>game\<close> extends the registry state with
  the flags and bookkeeping that \<open>__init__\<close> sets (lines 91-101). The race list
  \<open>finish_order\<close> holds racer objects; the model holds the racer records as
  they are when appended, which is what the drawing reads from them later
  (name, colour, finish time), since nothing writes those fields of a
  finished racer before the list is cleared. \<open>racer not in self.finish_order\<close>
  compares identities (\<open>Racer\<close> defines no \<open>__eq__\<close>), so the model tests
  \<open>oid\<close>. The wall clock \<open>time.time()\<close> is the
  parameter \<open>now\<close> of the operations that read it, one reading per frame;
  \<open>clock.tick(FPS) / 1000.0\<close> is the parameter \<open>dt\<close>. Events are a datatype
  of the pygame events the handler distinguishes. A raised exception is the
  left value of \<open>py_error + _\<close>; it ends the program, since nothing catches it.
\<close>

record 'g game = "'g registry" +
  running :: bool
  racing :: bool
  race_complete :: bool
  algorithm_mode :: algorithm_mode
  show_comparison :: bool
  finish_order :: "racer list"
  race_start_time :: real

text \<open>\<open>RaceSorterGame.__init__\<close> (lines 83-103) apart from the pygame objects:
  the flags, the empty lists, then \<open>init_racers\<close>. The generator state and the
  first free identity are the inputs.\<close>

definition game_init :: "'g random_module \<Rightarrow> 'g \<Rightarrow> 'g game" where
  "game_init R g =
     init_racers R \<lparr>racers = [], sort_operations = 0, pivot_highlights = [], rng = g, next_oid = 0,
       running = True, racing = False, race_complete = False, algorithm_mode = RANDOMIZED,
       show_comparison = False, finish_order = [], race_start_time = 0\<rparr>"

text \<open>The body of the loop \<open>for racer in self.racers\<close> of \<open>start_race\<close>
  (lines 180-187).\<close>

definition reset_racer :: "racer \<Rightarrow> racer" where
  "reset_racer r =
     r\<lparr>position := 0, x_pos := 100, speed := 0, finished := False, finish_time := 0,
       power_active := False, power_timer := 0\<rparr>"

text \<open>\<open>for i, racer in enumerate(self.racers): racer.y = 200 + i * 60\<close>
  (lines 195-196).\<close>

definition set_rows :: "racer list \<Rightarrow> racer list" where
  "set_rows xs = map (\<lambda>(i, r). r\<lparr>y_pos := 200 + int i * 60\<rparr>) (enumerate 0 xs)"

text \<open>\<open>median_racer.activate_power()\<close> mutates the object that \<open>find_median\<close>
  returned, which is an element of \<open>self.racers\<close> (the sorted copy shares its
  objects): every entry with that identity is updated.\<close>

definition activate_in :: "nat \<Rightarrow> racer list \<Rightarrow> racer list" where
  "activate_in i xs = map (\<lambda>r. if oid r = i then activate_power r else r) xs"

text \<open>\<open>start_race\<close> (lines 170-201).\<close>

definition start_race :: "'g random_module \<Rightarrow> real \<Rightarrow> 'g game \<Rightarrow> py_error + 'g game" where
  "start_race R now s =
     (let s1 = s\<lparr>racing := True, race_complete := False, finish_order := [],
                 race_start_time := now, sort_operations := 0, pivot_highlights := []\<rparr>;
          s2 = s1\<lparr>racers := map reset_racer (racers s1)\<rparr>;
          s3 = sort_racers (algorithm_mode s2) R s2;
          s4 = s3\<lparr>racers := set_rows (racers s3)\<rparr>
      in case find_median (racers s4) of
           Inl e \<Rightarrow> Inl e
         | Inr m \<Rightarrow> Inr (s4\<lparr>racers := activate_in (oid m) (racers s4)\<rparr>))"

text \<open>The body of \<open>for racer in self.racers\<close> of \<open>update\<close> (lines 207-223):
  the racer's physics step with its boost, the power timer, and the entry in
  the finish order.\<close>

definition update_racer ::
  "'g random_module \<Rightarrow> real \<Rightarrow> real \<Rightarrow> real \<Rightarrow> racer \<Rightarrow> racer list \<Rightarrow> 'g \<Rightarrow> racer \<times> racer list \<times> 'g" where
  "update_racer R now t0 dt r fo g =
     (let boost = (if power_active r then 1.5 else 1.0);
          (r1, g1) = racer_update R dt boost r g;
          r2 = (if power_active r1 then
                  (let r' = r1\<lparr>power_timer := power_timer r1 - dt\<rparr>
                   in if power_timer r' \<le> 0 then r'\<lparr>power_active := False\<rparr> else r')
                else r1)
      in if finished r2 \<and> oid r2 \<notin> set (map oid fo)
         then (r2\<lparr>finish_time := now - t0\<rparr>, fo @ [r2\<lparr>finish_time := now - t0\<rparr>], g1)
         else (r2, fo, g1))"

fun update_loop ::
  "'g random_module \<Rightarrow> real \<Rightarrow> real \<Rightarrow> real \<Rightarrow> racer list \<Rightarrow> racer list \<Rightarrow> 'g \<Rightarrow> bool \<Rightarrow>
   racer list \<times> racer list \<times> 'g \<times> bool" where
  "update_loop R now t0 dt [] fo g all_finished = ([], fo, g, all_finished)"
| "update_loop R now t0 dt (r # rs) fo g all_finished =
     (let (r', fo', g') = update_racer R now t0 dt r fo g;
          (rs', fo'', g'', all') = update_loop R now t0 dt rs fo' g' (all_finished \<and> finished r')
      in (r' # rs', fo'', g'', all'))"

text \<open>\<open>update(dt)\<close> (lines 203-226).\<close>

definition game_update :: "'g random_module \<Rightarrow> real \<Rightarrow> real \<Rightarrow> 'g game \<Rightarrow> 'g game" where
  "game_update R now dt s =
     (if racing s \<and> \<not> race_complete s then
        let (xs, fo, g, all_finished) =
              update_loop R now (race_start_time s) dt (racers s) (finish_order s) (rng s) True
        in s\<lparr>racers := xs, finish_order := fo, rng := g,
             race_complete := (if all_finished then True else race_complete s)\<rparr>
      else s)"

text \<open>The events \<open>handle_events\<close> tells apart (lines 371-399).\<close>

datatype key = K_ESCAPE | K_SPACE | K_r | K_d | K_c | K_RETURN | K_other

datatype event = QUIT | KEYDOWN key | OTHER_EVENT

definition handle_event :: "'g random_module \<Rightarrow> real \<Rightarrow> 'g game \<Rightarrow> event \<Rightarrow> py_error + 'g game" where
  "handle_event R now s e =
     (case e of
        QUIT \<Rightarrow> Inr (s\<lparr>running := False\<rparr>)
      | KEYDOWN k \<Rightarrow>
          (if k = K_ESCAPE then
             (if show_comparison s then Inr (s\<lparr>show_comparison := False\<rparr>) else Inr (s\<lparr>running := False\<rparr>))
           else if k = K_SPACE \<and> \<not> racing s then start_race R now s
           else if k = K_r then Inr (init_racers R (s\<lparr>algorithm_mode := RANDOMIZED\<rparr>))
           else if k = K_d then Inr (init_racers R (s\<lparr>algorithm_mode := DETERMINISTIC\<rparr>))
           else if k = K_c then Inr (s\<lparr>show_comparison := True\<rparr>)
           else if k = K_RETURN \<and> race_complete s then
             Inr (init_racers R (s\<lparr>racing := False, race_complete := False\<rparr>))
           else Inr s)
      | OTHER_EVENT \<Rightarrow> Inr s)"

fun handle_events :: "'g random_module \<Rightarrow> real \<Rightarrow> 'g game \<Rightarrow> event list \<Rightarrow> py_error + 'g game" where
  "handle_events R now s [] = Inr s"
| "handle_events R now s (e # es) =
     (case handle_event R now s e of Inl err \<Rightarrow> Inl err | Inr s' \<Rightarrow> handle_events R now s' es)"

text \<open>One iteration of the loop of \<open>run\<close> (lines 403-425) without drawing: the
  events of the frame, then \<open>update\<close> unless the comparison screen is shown.\<close>

definition frame ::
  "'g random_module \<Rightarrow> real \<Rightarrow> real \<Rightarrow> event list \<Rightarrow> 'g game \<Rightarrow> py_error + 'g game" where
  "frame R now dt evs s =
     (case handle_events R now s evs of
        Inl err \<Rightarrow> Inl err
      | Inr s' \<Rightarrow> Inr (if \<not> show_comparison s' then game_update R now dt s' else s'))"

text \<open>\<open>while self.running\<close> over the frames the environment supplies: each
  frame is the clock reading, the tick and the event queue.\<close>

fun run :: "'g random_module \<Rightarrow> (real \<times> real \<times> event list) list \<Rightarrow> 'g game \<Rightarrow> py_error + 'g game" where
  "run R [] s = Inr s"
| "run R ((now, dt, evs) # fs) s =
     (if running s then (case frame R now dt evs s of Inl err \<Rightarrow> Inl err | Inr s' \<Rightarrow> run R fs s')
      else Inr s)"

subsection \<open>Well-formed racers\<close>

text \<open>The attributes \<open>init_racers\<close> draws and the key computed from them; no
  operation changes them afterwards.\<close>

definition attrs_ok :: "racer \<Rightarrow> bool" where
  "attrs_ok r \<longleftrightarrow>
     80 \<le> base_speed r \<and> base_speed r \<le> 120 \<and> 20 \<le> acceleration r \<and> acceleration r \<le> 40 \<and>
     60 \<le> handling r \<and> handling r \<le> 95 \<and> sort_value r = calculate_sort_value r \<and>
     color r \<in> set racer_colors"

text \<open>The motion fields: a racer that has not finished is drawn at
  \<open>100 + 2 * position\<close>, left of the finish line; a finished one stands on the
  line; an active power has time left, at most the three seconds
  \<open>activate_power\<close> gives.\<close>

definition motion_ok :: "racer \<Rightarrow> bool" where
  "motion_ok r \<longleftrightarrow>
     0 \<le> speed r \<and> 0 \<le> position r \<and>
     x_pos r = (if finished r then of_int (SCREEN_WIDTH - 150) else 100 + position r * 2) \<and>
     (\<not> finished r \<longrightarrow> x_pos r < of_int (SCREEN_WIDTH - 150)) \<and>
     (power_active r \<longrightarrow> 0 < power_timer r \<and> power_timer r \<le> 3)"



subsection \<open>Starting a race\<close>


lemma sort_racers_length [simp]:
  "length (racers (sort_racers m R s)) = length (racers s)"
  by (simp add: sort_racers_def)

lemma sort_racers_facts:
  assumes "randint_ok R"
  shows "sorted (map sort_value (racers (sort_racers m R s))) \<and>
         mset (map racer_body (racers (sort_racers m R s))) = mset (map racer_body (racers s)) \<and>
         mset (map lane (racers (sort_racers m R s))) = mset (map lane (racers s)) \<and>
         engine.more (sort_racers m R s) = engine.more s"
proof (cases "m = RANDOMIZED")
  case True
  then show ?thesis
    using sorts_range_whole [OF quicksort_randomized_whole [OF assms, of s]]
      quicksort_randomized_lanes [OF assms, of 0 "int (length (racers s)) - 1" s]
      quicksort_randomized_frame [of R 0 "int (length (racers s)) - 1" s]
    by (simp add: sort_racers_def)
next
  case False
  then show ?thesis
    using sorts_range_whole [OF quicksort_deterministic_whole [of s]]
      arg_cong [OF quicksort_deterministic_lanes [of 0 "int (length (racers s)) - 1" s], of mset]
      quicksort_deterministic_frame [of 0 "int (length (racers s)) - 1" s]
    by (simp add: sort_racers_def)
qed

lemma mset_oid_bodies:
  "mset (map racer_body xs) = mset (map racer_body ys) \<Longrightarrow> mset (map oid xs) = mset (map oid ys)"
  proof -
  assume "mset (map racer_body xs) = mset (map racer_body ys)"
  then have "mset (map oid (map racer_body xs)) = mset (map oid (map racer_body ys))" by (simp only: mset_map)
  then show ?thesis by (simp add: comp_def)
qed

lemma length_set_rows [simp]: "length (set_rows xs) = length xs"
  by (simp add: set_rows_def)

lemma nth_set_rows:
  "i < length xs \<Longrightarrow> set_rows xs ! i = (xs ! i)\<lparr>y_pos := 200 + int i * 60\<rparr>"
  by (simp add: set_rows_def nth_enumerate_eq)

lemma map_set_rows:
  assumes "\<And>r y. f (r\<lparr>y_pos := y\<rparr>) = f r"
  shows "map f (set_rows xs) = map f xs"
  by (rule nth_equalityI) (simp_all add: nth_set_rows assms)

lemma length_activate_in [simp]: "length (activate_in i xs) = length xs"
  by (simp add: activate_in_def)

lemma nth_activate_in:
  "k < length xs \<Longrightarrow> activate_in i xs ! k = (if oid (xs ! k) = i then activate_power (xs ! k) else xs ! k)"
  by (simp add: activate_in_def)

lemma map_activate_in:
  assumes "\<And>r. f (activate_power r) = f r"
  shows "map f (activate_in i xs) = map f xs"
  by (rule nth_equalityI) (simp_all add: nth_activate_in assms)

lemma reset_racer_simps [simp]:
  "sort_value (reset_racer r) = sort_value r" "oid (reset_racer r) = oid r"
  "lane (reset_racer r) = lane r" "name (reset_racer r) = name r" "y_pos (reset_racer r) = y_pos r"
  by (simp_all add: reset_racer_def)

lemma activate_power_simps [simp]:
  "sort_value (activate_power r) = sort_value r" "oid (activate_power r) = oid r"
  "lane (activate_power r) = lane r" "name (activate_power r) = name r"
  "y_pos (activate_power r) = y_pos r" "x_pos (activate_power r) = x_pos r"
  "position (activate_power r) = position r" "speed (activate_power r) = speed r"
  "finished (activate_power r) = finished r" "power_active (activate_power r)"
  by (simp_all add: activate_power_def)


lemma start_race_Inr:
  fixes R :: "'g random_module" and now :: real and s :: "'g game"
  assumes ne: "racers s \<noteq> []"
  defines "s3 \<equiv> sort_racers (algorithm_mode s) R
             (s\<lparr>racing := True, race_complete := False, finish_order := [], race_start_time := now,
                sort_operations := 0, pivot_highlights := [], racers := map reset_racer (racers s)\<rparr>)"
  shows "start_race R now s =
    Inr (s3\<lparr>racers := activate_in (oid (sort_key sort_value (set_rows (racers s3)) ! (length (racers s) div 2)))
                                  (set_rows (racers s3))\<rparr>)"
proof -
  have l: "length (set_rows (racers s3)) = length (racers s)" by (simp add: s3_def)
  have "set_rows (racers s3) \<noteq> []" using ne l by (metis length_0_conv)
  then have "find_median (set_rows (racers s3)) = Inr (sort_key sort_value (set_rows (racers s3)) ! (length (racers s) div 2))"
    using l by (simp add: find_median_eq)
  then show ?thesis
    unfolding start_race_def Let_def s3_def by simp
qed

lemma engine_more_game:
  fixes a b :: "'g game"
  assumes "engine.more a = engine.more b"
  shows "next_oid a = next_oid b \<and> running a = running b \<and> racing a = racing b \<and>
         race_complete a = race_complete b \<and> algorithm_mode a = algorithm_mode b \<and>
         show_comparison a = show_comparison b \<and> finish_order a = finish_order b \<and>
         race_start_time a = race_start_time b"
  using assms by (cases a; cases b; simp)

lemma body_reset:
  "racer_body r = racer_body (reset_racer x) \<Longrightarrow>
   position r = 0 \<and> x_pos r = 100 \<and> speed r = 0 \<and> \<not> finished r \<and> finish_time r = 0 \<and>
   \<not> power_active r \<and> power_timer r = 0"
  by (cases r; cases x; simp add: racer_body_def reset_racer_def)

lemma mset_map_body_reset:
  assumes "mset (map racer_body ys) = mset (map racer_body (map reset_racer xs))" "r \<in> set ys"
  obtains x where "x \<in> set xs" "racer_body r = racer_body (reset_racer x)"
proof -
  have "racer_body r \<in> set (map racer_body (map reset_racer xs))"
    using mset_eq_setD [OF assms(1)] assms(2) by (metis image_eqI list.set_map)
  then show ?thesis using that by auto
qed

lemma attrs_ok_body_reset:
  "racer_body r = racer_body (reset_racer x) \<Longrightarrow> attrs_ok r = attrs_ok x"
  by (cases r; cases x; simp add: racer_body_def reset_racer_def attrs_ok_def calculate_sort_value_def)

lemma power_activate_in:
  assumes "distinct (map oid zs)" "i < length zs" "k < length zs"
  shows "power_active (activate_in (oid (zs ! k)) zs ! i) \<longleftrightarrow> i = k \<or> power_active (zs ! i)"
  using assms nth_eq_iff_index_eq [of "map oid zs" i k]
  by (auto simp: nth_activate_in activate_power_def)


lemma start_race_result:
  fixes R :: "'g random_module" and now :: real and s :: "'g game"
  assumes R: "randint_ok R" and ne: "racers s \<noteq> []" and d: "distinct (map oid (racers s))"
  shows "\<exists>s'. start_race R now s = Inr s' \<and>
     racing s' \<and> \<not> race_complete s' \<and> finish_order s' = [] \<and> race_start_time s' = now \<and>
     next_oid s' = next_oid s \<and> running s' = running s \<and> algorithm_mode s' = algorithm_mode s \<and>
     show_comparison s' = show_comparison s \<and>
     length (racers s') = length (racers s) \<and>
     sorted (map sort_value (racers s')) \<and>
     mset (map oid (racers s')) = mset (map oid (racers s)) \<and>
     mset (map lane (racers s')) = mset (map lane (racers s)) \<and>
     (\<forall>i < length (racers s').
        y_pos (racers s' ! i) = 200 + int i * 60 \<and> position (racers s' ! i) = 0 \<and>
        x_pos (racers s' ! i) = 100 \<and> speed (racers s' ! i) = 0 \<and> \<not> finished (racers s' ! i) \<and>
        finish_time (racers s' ! i) = 0 \<and>
        (power_active (racers s' ! i) \<longleftrightarrow> i = length (racers s) div 2) \<and>
        (power_active (racers s' ! i) \<longrightarrow> power_timer (racers s' ! i) = 3) \<and>
        ((\<forall>r \<in> set (racers s). attrs_ok r) \<longrightarrow> attrs_ok (racers s' ! i)))"
proof -
  define s2 where "s2 = s\<lparr>racing := True, race_complete := False, finish_order := [], race_start_time := now,
                sort_operations := 0, pivot_highlights := [], racers := map reset_racer (racers s)\<rparr>"
  define s3 where "s3 = sort_racers (algorithm_mode s) R s2"
  define ys where "ys = racers s3"
  define zs where "zs = set_rows ys"
  have F: "sorted (map sort_value ys)" "mset (map racer_body ys) = mset (map racer_body (map reset_racer (racers s)))"
          "mset (map lane ys) = mset (map lane (racers s))" "engine.more s3 = engine.more s2"
    using sort_racers_facts [OF R, of "algorithm_mode s" s2] by (simp_all add: ys_def s3_def s2_def comp_def)
  have lz: "length zs = length (racers s)" by (simp add: zs_def ys_def s3_def s2_def)
  have kz: "map sort_value zs = map sort_value ys" by (simp add: zs_def map_set_rows)
  have sk: "sort_key sort_value zs = zs" using F(1) kz by (simp add: sort_key_id_if_sorted)
  have oz: "mset (map oid zs) = mset (map oid (racers s))"
    using mset_oid_bodies [OF F(2)] by (simp add: zs_def map_set_rows comp_def)
  have dz: "distinct (map oid zs)" using mset_eq_imp_distinct_iff [OF oz] d by simp
  have lanez: "mset (map lane zs) = mset (map lane (racers s))" using F(3) by (simp add: zs_def map_set_rows)
  have g: "next_oid s3 = next_oid s \<and> running s3 = running s \<and> racing s3 \<and> \<not> race_complete s3 \<and>
           algorithm_mode s3 = algorithm_mode s \<and> show_comparison s3 = show_comparison s \<and>
           finish_order s3 = [] \<and> race_start_time s3 = now"
    using engine_more_game [OF F(4)] by (simp add: s2_def)
  have st: "position r = 0 \<and> x_pos r = 100 \<and> speed r = 0 \<and> \<not> finished r \<and> finish_time r = 0 \<and>
            \<not> power_active r \<and> ((\<forall>r \<in> set (racers s). attrs_ok r) \<longrightarrow> attrs_ok r)" if ry: "r \<in> set ys" for r
  proof -
    obtain x where "x \<in> set (racers s)" "racer_body r = racer_body (reset_racer x)"
      using mset_map_body_reset [OF F(2) ry] by blast
    then show ?thesis using body_reset attrs_ok_body_reset by blast
  qed
  have eq: "start_race R now s = Inr (s3\<lparr>racers := activate_in (oid (zs ! (length (racers s) div 2))) zs\<rparr>)"
    using start_race_Inr [OF ne, of R now] sk by (simp add: s3_def s2_def zs_def ys_def)
  have mid: "length (racers s) div 2 < length zs" using lz ne by simp
  show ?thesis
  proof (intro exI conjI allI impI)
    show "start_race R now s = Inr (s3\<lparr>racers := activate_in (oid (zs ! (length (racers s) div 2))) zs\<rparr>)"
      by (rule eq)
  next
    fix i assume "i < length (racers (s3\<lparr>racers := activate_in (oid (zs ! (length (racers s) div 2))) zs\<rparr>))"
    then have i: "i < length zs" "i < length ys" by (simp_all add: zs_def)
    have yi: "ys ! i \<in> set ys" using i(2) by simp
    have zi: "zs ! i = (ys ! i)\<lparr>y_pos := 200 + int i * 60\<rparr>" using i(2) by (simp add: zs_def nth_set_rows)
    show "power_active (racers (s3\<lparr>racers := activate_in (oid (zs ! (length (racers s) div 2))) zs\<rparr>) ! i) \<longleftrightarrow>
          i = length (racers s) div 2"
      using power_activate_in [OF dz i(1) mid] st [OF yi] zi by simp
    show "y_pos (racers (s3\<lparr>racers := activate_in (oid (zs ! (length (racers s) div 2))) zs\<rparr>) ! i) = 200 + int i * 60"
      using zi i by (simp add: nth_activate_in)
    show "position (racers (s3\<lparr>racers := activate_in (oid (zs ! (length (racers s) div 2))) zs\<rparr>) ! i) = 0"
      "x_pos (racers (s3\<lparr>racers := activate_in (oid (zs ! (length (racers s) div 2))) zs\<rparr>) ! i) = 100"
      "speed (racers (s3\<lparr>racers := activate_in (oid (zs ! (length (racers s) div 2))) zs\<rparr>) ! i) = 0"
      "\<not> finished (racers (s3\<lparr>racers := activate_in (oid (zs ! (length (racers s) div 2))) zs\<rparr>) ! i)"
      "finish_time (racers (s3\<lparr>racers := activate_in (oid (zs ! (length (racers s) div 2))) zs\<rparr>) ! i) = 0"
      using zi i st [OF yi] by (simp_all add: nth_activate_in activate_power_def)
    show "power_timer (racers (s3\<lparr>racers := activate_in (oid (zs ! (length (racers s) div 2))) zs\<rparr>) ! i) = 3"
      if "power_active (racers (s3\<lparr>racers := activate_in (oid (zs ! (length (racers s) div 2))) zs\<rparr>) ! i)"
      using that zi i st [OF yi] by (simp add: nth_activate_in activate_power_def split: if_splits)
    show "attrs_ok (racers (s3\<lparr>racers := activate_in (oid (zs ! (length (racers s) div 2))) zs\<rparr>) ! i)"
      if "\<forall>r \<in> set (racers s). attrs_ok r"
      using that zi i st [OF yi] by (simp add: nth_activate_in activate_power_def attrs_ok_def calculate_sort_value_def)
  qed (use g lz kz F(1) oz lanez in \<open>simp_all add: map_activate_in\<close>)
qed


subsection \<open>One frame of the race\<close>


lemma racer_update_static:
  "oid (fst (racer_update R dt b r g)) = oid r \<and> name (fst (racer_update R dt b r g)) = name r \<and>
   base_speed (fst (racer_update R dt b r g)) = base_speed r \<and>
   acceleration (fst (racer_update R dt b r g)) = acceleration r \<and>
   handling (fst (racer_update R dt b r g)) = handling r \<and>
   y_pos (fst (racer_update R dt b r g)) = y_pos r \<and> lane (fst (racer_update R dt b r g)) = lane r \<and>
   sort_value (fst (racer_update R dt b r g)) = sort_value r \<and>
   power_active (fst (racer_update R dt b r g)) = power_active r \<and>
   power_timer (fst (racer_update R dt b r g)) = power_timer r \<and>
   finish_time (fst (racer_update R dt b r g)) = finish_time r \<and>
   color (fst (racer_update R dt b r g)) = color r \<and>
   (finished r \<longrightarrow> finished (fst (racer_update R dt b r g)))"
  by (simp add: racer_update_def Let_def split_beta)

lemma racer_update_motion:
  assumes m: "motion_ok r" and a: "attrs_ok r" and dt: "0 \<le> dt" and b: "0 < b"
  shows "0 \<le> speed (fst (racer_update R dt b r g)) \<and> 0 \<le> position (fst (racer_update R dt b r g)) \<and>
    x_pos (fst (racer_update R dt b r g)) =
      (if finished (fst (racer_update R dt b r g)) then of_int (SCREEN_WIDTH - 150)
       else 100 + position (fst (racer_update R dt b r g)) * 2) \<and>
    (\<not> finished (fst (racer_update R dt b r g)) \<longrightarrow> x_pos (fst (racer_update R dt b r g)) < of_int (SCREEN_WIDTH - 150))"
proof (cases "finished r")
  case True
  then show ?thesis using m by (simp add: racer_update_def motion_ok_def)
next
  case False
  obtain u g' where ug: "rm_random R g = (u, g')" by (cases "rm_random R g")
  have "0 \<le> acceleration r * dt * b" using a dt b by (simp add: attrs_ok_def)
  then have s1: "0 \<le> speed r + acceleration r * dt * b" using m by (simp add: motion_ok_def)
  have s2: "0 \<le> base_speed r * b" using a b by (simp add: attrs_ok_def)
  have "0 \<le> min (speed r + acceleration r * dt * b) (base_speed r * b) * dt" using s1 s2 dt by simp
  then have p: "0 \<le> position r + min (speed r + acceleration r * dt * b) (base_speed r * b) * dt"
    using m by (simp add: motion_ok_def)
  show ?thesis
    using False ug s1 s2 p unfolding racer_update_def Let_def
    by (simp add: SCREEN_WIDTH_def not_le)
qed


lemma attrs_ok_cong:
  "base_speed r' = base_speed r \<Longrightarrow> acceleration r' = acceleration r \<Longrightarrow> handling r' = handling r \<Longrightarrow>
   sort_value r' = sort_value r \<Longrightarrow> color r' = color r \<Longrightarrow> attrs_ok r' = attrs_ok r"
  by (simp add: attrs_ok_def calculate_sort_value_def)

lemma update_racer_facts:
  assumes u: "update_racer R now t0 dt r fo g = (r', fo', g')"
  shows "oid r' = oid r \<and> name r' = name r \<and> y_pos r' = y_pos r \<and> lane r' = lane r \<and>
         sort_value r' = sort_value r \<and> attrs_ok r' = attrs_ok r \<and>
         fo' = (if finished r' \<and> oid r \<notin> set (map oid fo) then fo @ [r'] else fo) \<and>
         (finished r \<longrightarrow> finished r') \<and>
         (attrs_ok r \<and> motion_ok r \<and> 0 \<le> dt \<longrightarrow> motion_ok r') \<and>
         (\<exists>b. 1 \<le> b \<and> position r' = position (fst (racer_update R dt b r g)) \<and>
               finished r' = finished (fst (racer_update R dt b r g)))"
proof -
  define b :: real where "b = (if power_active r then 1.5 else 1.0)"
  obtain r1 g1 where ru: "racer_update R dt b r g = (r1, g1)" by (cases "racer_update R dt b r g")
  have st: "oid r1 = oid r \<and> name r1 = name r \<and> base_speed r1 = base_speed r \<and>
     acceleration r1 = acceleration r \<and> handling r1 = handling r \<and> y_pos r1 = y_pos r \<and>
     lane r1 = lane r \<and> sort_value r1 = sort_value r \<and> power_active r1 = power_active r \<and>
     power_timer r1 = power_timer r \<and> color r1 = color r \<and> (finished r \<longrightarrow> finished r1)"
    using racer_update_static [of R dt b r g] ru by simp
  define r2 where "r2 = (if power_active r1 then
                  (let r' = r1\<lparr>power_timer := power_timer r1 - dt\<rparr>
                   in if power_timer r' \<le> 0 then r'\<lparr>power_active := False\<rparr> else r')
                else r1)"
  have upd: "update_racer R now t0 dt r fo g =
      (if finished r2 \<and> oid r2 \<notin> set (map oid fo) then (r2\<lparr>finish_time := now - t0\<rparr>, fo @ [r2\<lparr>finish_time := now - t0\<rparr>], g1)
       else (r2, fo, g1))"
    unfolding update_racer_def b_def [symmetric] Let_def ru r2_def by simp
  have e: "(r', fo', g') = (if finished r2 \<and> oid r2 \<notin> set (map oid fo) then (r2\<lparr>finish_time := now - t0\<rparr>, fo @ [r2\<lparr>finish_time := now - t0\<rparr>], g1)
       else (r2, fo, g1))"
    using u [symmetric] upd by (rule trans)
  have r': "r' = (if finished r2 \<and> oid r2 \<notin> set (map oid fo) then r2\<lparr>finish_time := now - t0\<rparr> else r2)"
    and fo': "fo' = (if finished r2 \<and> oid r2 \<notin> set (map oid fo) then fo @ [r2\<lparr>finish_time := now - t0\<rparr>] else fo)"
    using arg_cong [OF e, of fst] arg_cong [OF e, of "fst \<circ> snd"] by (simp_all add: if_distrib)
  have m2: "motion_ok r'" if "attrs_ok r" "motion_ok r" "0 \<le> dt"
  proof -
    have "0 < b" by (simp add: b_def)
    then have "0 \<le> speed r1 \<and> 0 \<le> position r1 \<and>
      x_pos r1 = (if finished r1 then of_int (SCREEN_WIDTH - 150) else 100 + position r1 * 2) \<and>
      (\<not> finished r1 \<longrightarrow> x_pos r1 < of_int (SCREEN_WIDTH - 150))"
      using racer_update_motion [OF that(2,1,3), of b R g] unfolding ru by (auto simp: SCREEN_WIDTH_def)
    moreover have "power_active r1 \<longrightarrow> 0 < power_timer r1 \<and> power_timer r1 \<le> 3"
      using that(2) st by (simp add: motion_ok_def)
    ultimately show ?thesis using that(3) by (auto simp: r' r2_def motion_ok_def Let_def SCREEN_WIDTH_def)
  qed
  have a2: "attrs_ok r' = attrs_ok r" using st by (intro attrs_ok_cong) (simp_all add: r' r2_def Let_def)
  have "1 \<le> b \<and> position r' = position (fst (racer_update R dt b r g)) \<and>
        finished r' = finished (fst (racer_update R dt b r g))"
    using ru by (simp add: b_def r' r2_def Let_def)
  then have pb: "\<exists>b. 1 \<le> b \<and> position r' = position (fst (racer_update R dt b r g)) \<and>
               finished r' = finished (fst (racer_update R dt b r g))" by blast
  have "oid r' = oid r \<and> name r' = name r \<and> y_pos r' = y_pos r \<and> lane r' = lane r \<and>
        sort_value r' = sort_value r \<and>
        fo' = (if finished r' \<and> oid r \<notin> set (map oid fo) then fo @ [r'] else fo) \<and>
        (finished r \<longrightarrow> finished r')"
    using st by (simp add: r' fo' r2_def Let_def)
  then show ?thesis using m2 a2 pb by blast
qed


lemma update_loop_facts:
  "update_loop R now t0 dt rs fo g af = (rs', fo', g', af') \<Longrightarrow>
   map oid rs' = map oid rs \<and> map name rs' = map name rs \<and> map y_pos rs' = map y_pos rs \<and>
   map lane rs' = map lane rs \<and> map sort_value rs' = map sort_value rs \<and>
   (\<exists>ext. fo' = fo @ ext) \<and> set (map oid fo') \<subseteq> set (map oid fo) \<union> set (map oid rs) \<and>
   (distinct (map oid fo) \<longrightarrow> distinct (map oid fo')) \<and>
   (\<forall>r \<in> set rs'. finished r \<longrightarrow> oid r \<in> set (map oid fo')) \<and>
   ((\<forall>r \<in> set rs. attrs_ok r \<and> motion_ok r) \<and> 0 \<le> dt \<longrightarrow> (\<forall>r \<in> set rs'. attrs_ok r \<and> motion_ok r)) \<and>
   ((\<forall>r \<in> set fo. attrs_ok r) \<and> (\<forall>r \<in> set rs. attrs_ok r) \<longrightarrow> (\<forall>r \<in> set fo'. attrs_ok r)) \<and>
   af' = (af \<and> (\<forall>r \<in> set rs'. finished r))"
proof (induction rs arbitrary: fo g af rs' fo' g' af')
  case Nil
  then show ?case by auto
next
  case (Cons r rs)
  obtain r1 fo1 g1 where u1: "update_racer R now t0 dt r fo g = (r1, fo1, g1)"
    by (cases "update_racer R now t0 dt r fo g") auto
  obtain rs2 fo2 g2 af2 where u2: "update_loop R now t0 dt rs fo1 g1 (af \<and> finished r1) = (rs2, fo2, g2, af2)"
    by (cases "update_loop R now t0 dt rs fo1 g1 (af \<and> finished r1)") auto
  have e: "rs' = r1 # rs2" "fo' = fo2" "af' = af2"
    using Cons.prems u1 u2 by simp_all
  note F = update_racer_facts [OF u1]
  note IH = Cons.IH [OF u2]
  have fo1: "fo1 = (if finished r1 \<and> oid r \<notin> set (map oid fo) then fo @ [r1] else fo)" using F by simp
  have o1: "oid r1 = oid r" using F by blast
  obtain ext where ext: "fo2 = fo1 @ ext" using IH by blast
  have maps: "map oid (r1 # rs2) = map oid (r # rs)" "map name (r1 # rs2) = map name (r # rs)"
    "map y_pos (r1 # rs2) = map y_pos (r # rs)" "map lane (r1 # rs2) = map lane (r # rs)"
    "map sort_value (r1 # rs2) = map sort_value (r # rs)"
  proof -
    have "oid r1 = oid r" "name r1 = name r" "y_pos r1 = y_pos r" "lane r1 = lane r"
      "sort_value r1 = sort_value r" using F by blast+
    moreover have "map oid rs2 = map oid rs" "map name rs2 = map name rs" "map y_pos rs2 = map y_pos rs"
      "map lane rs2 = map lane rs" "map sort_value rs2 = map sort_value rs" using IH by blast+
    ultimately show "map oid (r1 # rs2) = map oid (r # rs)" "map name (r1 # rs2) = map name (r # rs)"
      "map y_pos (r1 # rs2) = map y_pos (r # rs)" "map lane (r1 # rs2) = map lane (r # rs)"
      "map sort_value (r1 # rs2) = map sort_value (r # rs)" by simp_all
  qed
  have "finished r1 \<longrightarrow> oid r1 \<in> set (map oid fo1)" using o1 fo1 by auto
  then have "finished r1 \<longrightarrow> oid r1 \<in> set (map oid fo2)" using ext by simp
  moreover have "\<forall>x \<in> set rs2. finished x \<longrightarrow> oid x \<in> set (map oid fo2)" using IH by blast
  ultimately have in1: "\<forall>x \<in> set (r1 # rs2). finished x \<longrightarrow> oid x \<in> set (map oid fo2)" by simp
  have dist: "distinct (map oid fo) \<longrightarrow> distinct (map oid fo2)"
  proof
    assume "distinct (map oid fo)"
    then have "distinct (map oid fo1)" using fo1 o1 by simp
    then show "distinct (map oid fo2)" using IH by blast
  qed
  have sub: "set (map oid fo2) \<subseteq> set (map oid fo) \<union> set (map oid (r # rs))"
  proof -
    have "set (map oid fo2) \<subseteq> set (map oid fo1) \<union> set (map oid rs)" using IH by blast
    moreover have "set (map oid fo1) \<subseteq> set (map oid fo) \<union> {oid r}" using fo1 o1 by auto
    ultimately show ?thesis by auto
  qed
  have mot: "(\<forall>x \<in> set (r # rs). attrs_ok x \<and> motion_ok x) \<and> 0 \<le> dt \<longrightarrow>
             (\<forall>x \<in> set (r1 # rs2). attrs_ok x \<and> motion_ok x)"
  proof
    assume a: "(\<forall>x \<in> set (r # rs). attrs_ok x \<and> motion_ok x) \<and> 0 \<le> dt"
    then have "attrs_ok r1 \<and> motion_ok r1" using F by simp
    moreover have "\<forall>x \<in> set rs2. attrs_ok x \<and> motion_ok x" using IH a by simp
    ultimately show "\<forall>x \<in> set (r1 # rs2). attrs_ok x \<and> motion_ok x" by simp
  qed
  have fa: "(\<forall>x \<in> set fo. attrs_ok x) \<and> (\<forall>x \<in> set (r # rs). attrs_ok x) \<longrightarrow> (\<forall>x \<in> set fo2. attrs_ok x)"
  proof
    assume a: "(\<forall>x \<in> set fo. attrs_ok x) \<and> (\<forall>x \<in> set (r # rs). attrs_ok x)"
    have ih: "(\<forall>x \<in> set fo1. attrs_ok x) \<and> (\<forall>x \<in> set rs. attrs_ok x) \<longrightarrow> (\<forall>x \<in> set fo2. attrs_ok x)"
      using IH by blast
    have "attrs_ok r1 = attrs_ok r" using F by blast
    then have "attrs_ok r1" using a by simp
    then have "\<forall>x \<in> set fo1. attrs_ok x" using a fo1 by auto
    then show "\<forall>x \<in> set fo2. attrs_ok x" using ih a by simp
  qed
  have fin: "af2 = (af \<and> (\<forall>x \<in> set (r1 # rs2). finished x))" using IH by auto
  have "\<exists>ext'. fo2 = fo @ ext'" using fo1 ext by (cases "finished r1 \<and> oid r \<notin> set (map oid fo)") auto
  then show ?case
    unfolding e using maps in1 dist sub mot fa fin by blast
qed


lemma registry_more_game:
  fixes a b :: "'g game"
  assumes "registry.more a = registry.more b"
  shows "running a = running b \<and> racing a = racing b \<and> race_complete a = race_complete b \<and>
         algorithm_mode a = algorithm_mode b \<and> show_comparison a = show_comparison b \<and>
         finish_order a = finish_order b \<and> race_start_time a = race_start_time b"
  using assms by (cases a; cases b; simp)

lemma fresh_racer_motion: "fresh_racer i r \<Longrightarrow> motion_ok r"
  by (simp add: fresh_racer_def motion_ok_def SCREEN_WIDTH_def)

lemma init_racers_attrs: "uniform_ok R \<Longrightarrow> \<forall>r \<in> set (racers (init_racers R s)). attrs_ok r"
  unfolding attrs_ok_def by (rule init_racers_all) (use init_racer_step_attrs init_racer_step_color in blast)

end
