(* ===== verification/Lifecycle.thy ===== *)
theory Lifecycle
  imports Game
begin

definition game_inv :: "'g game \<Rightarrow> bool" where
  "game_inv s \<longleftrightarrow>
     length (racers s) = 6 \<and>
     mset (map lane (racers s)) = mset (map int [0..<6]) \<and>
     (\<forall>i < 6. y_pos (racers s ! i) = 200 + int i * 60) \<and>
     distinct (map oid (racers s)) \<and> (\<forall>r \<in> set (racers s). oid r < next_oid s) \<and>
     distinct (map oid (finish_order s)) \<and> (\<forall>k \<in> set (map oid (finish_order s)). k < next_oid s) \<and>
     (\<forall>r \<in> set (racers s). finished r \<longrightarrow> oid r \<in> set (map oid (finish_order s))) \<and>
     (\<forall>r \<in> set (racers s). attrs_ok r \<and> motion_ok r) \<and>
     (\<forall>r \<in> set (finish_order s). attrs_ok r) \<and>
     (race_complete s \<longrightarrow> racing s)"

text \<open>The states \<open>run\<close> reaches: the constructed game, then any frame taken
  while \<open>self.running\<close> holds, with a tick \<open>dt \<ge> 0\<close>.\<close>

inductive reach :: "'g random_module \<Rightarrow> 'g game \<Rightarrow> bool" for R :: "'g random_module" where
  init: "reach R (game_init R g)"
| step: "reach R s \<Longrightarrow> running s \<Longrightarrow> 0 \<le> dt \<Longrightarrow> frame R now dt evs s = Inr s' \<Longrightarrow> reach R s'"


lemma init_racers_game_inv:
  fixes t :: "'g game"
  assumes u: "uniform_ok R" and d: "distinct (map oid (finish_order t))"
    and b: "\<forall>k \<in> set (map oid (finish_order t)). k < next_oid t" and c: "race_complete t \<longrightarrow> racing t"
    and a: "\<forall>r \<in> set (finish_order t). attrs_ok r"
  shows "game_inv (init_racers R t)"
proof -
  let ?t = "init_racers R t"
  note f = init_racers_facts [of R t]
  have g: "finish_order ?t = finish_order t" "racing ?t = racing t" "race_complete ?t = race_complete t"
    using registry_more_game [of ?t t] f by simp_all
  have l: "length (racers ?t) = 6" using f by simp
  have fr: "\<And>i. i < 6 \<Longrightarrow> fresh_racer (int i) (racers ?t ! i)" using f by simp
  have lanes: "map lane (racers ?t) = map int [0..<6]"
    using l fr by (intro nth_equalityI) (simp_all add: fresh_racer_def)
  have oids: "map oid (racers ?t) = [next_oid t..<next_oid t + 6]"
    using l f by (intro nth_equalityI) simp_all
  have rows: "\<forall>i < 6. y_pos (racers ?t ! i) = 200 + int i * 60" using fr by (simp add: fresh_racer_def)
  have fin: "\<forall>r \<in> set (racers ?t). \<not> finished r \<and> motion_ok r"
  proof
    fix r assume "r \<in> set (racers ?t)"
    then obtain i where i: "i < 6" "r = racers ?t ! i" using l by (auto simp: in_set_conv_nth)
    then have "fresh_racer (int i) r" using fr by simp
    then show "\<not> finished r \<and> motion_ok r" by (simp add: fresh_racer_motion) (simp add: fresh_racer_def)
  qed
  have lt: "\<forall>r \<in> set (racers ?t). oid r < next_oid ?t"
  proof
    fix r assume "r \<in> set (racers ?t)"
    then have "oid r \<in> set (map oid (racers ?t))" by simp
    then show "oid r < next_oid ?t" using f unfolding oids by simp
  qed
  have "distinct (map oid (racers ?t))" unfolding oids by simp
  moreover have "\<forall>k \<in> set (map oid (finish_order ?t)). k < next_oid ?t" using b f g(1) by auto
  ultimately show ?thesis
    using l lanes rows lt fin d c a g init_racers_attrs [OF u, of t] by (simp add: game_inv_def)
qed


lemma game_inv_flags [simp]:
  "game_inv (s\<lparr>running := b\<rparr>) = game_inv s"
  "game_inv (s\<lparr>show_comparison := b\<rparr>) = game_inv s"
  "game_inv (s\<lparr>algorithm_mode := m\<rparr>) = game_inv s"
  by (simp_all add: game_inv_def)

lemma start_race_game_inv:
  fixes s :: "'g game"
  assumes R: "randint_ok R" and inv: "game_inv s" and st: "start_race R now s = Inr s'"
  shows "game_inv s'"
proof -
  have ne: "racers s \<noteq> []" and d: "distinct (map oid (racers s))" and l: "length (racers s) = 6"
    using inv by (auto simp: game_inv_def)
  obtain t where t: "start_race R now s = Inr t" and
    P: "racing t \<and> \<not> race_complete t \<and> finish_order t = [] \<and> next_oid t = next_oid s \<and>
     length (racers t) = length (racers s) \<and>
     mset (map oid (racers t)) = mset (map oid (racers s)) \<and>
     mset (map lane (racers t)) = mset (map lane (racers s)) \<and>
     (\<forall>i < length (racers t).
        y_pos (racers t ! i) = 200 + int i * 60 \<and> position (racers t ! i) = 0 \<and>
        x_pos (racers t ! i) = 100 \<and> speed (racers t ! i) = 0 \<and> \<not> finished (racers t ! i) \<and>
        finish_time (racers t ! i) = 0 \<and>
        (power_active (racers t ! i) \<longleftrightarrow> i = length (racers s) div 2) \<and>
        (power_active (racers t ! i) \<longrightarrow> power_timer (racers t ! i) = 3) \<and>
        ((\<forall>r \<in> set (racers s). attrs_ok r) \<longrightarrow> attrs_ok (racers t ! i)))"
    using start_race_result [OF R ne d, of now] by blast
  have ts: "t = s'" using t st by simp
  have A: "\<forall>r \<in> set (racers s). attrs_ok r" using inv by (simp add: game_inv_def)
  have each: "\<forall>r \<in> set (racers t). \<not> finished r \<and> attrs_ok r \<and> motion_ok r"
  proof
    fix r assume "r \<in> set (racers t)"
    then obtain i where i: "i < length (racers t)" "r = racers t ! i" by (auto simp: in_set_conv_nth)
    then show "\<not> finished r \<and> attrs_ok r \<and> motion_ok r"
      using P A by (auto simp: motion_ok_def SCREEN_WIDTH_def)
  qed
  have oids: "set (map oid (racers t)) = set (map oid (racers s))" using P by (metis mset_eq_setD)
  have "distinct (map oid (racers t))" using P d mset_eq_imp_distinct_iff by blast
  moreover have "\<forall>r \<in> set (racers t). oid r < next_oid t"
  proof
    fix r assume "r \<in> set (racers t)"
    then have "oid r \<in> set (map oid (racers s))" using oids by (metis image_eqI list.set_map)
    then show "oid r < next_oid t" using inv P by (auto simp: game_inv_def)
  qed
  moreover have "mset (map lane (racers t)) = mset (map int [0..<6])" using P inv by (simp add: game_inv_def)
  moreover have "\<forall>i < 6. y_pos (racers t ! i) = 200 + int i * 60" using P l by simp
  ultimately show ?thesis
    using P l each unfolding ts [symmetric] by (simp add: game_inv_def)
qed


lemma game_inv_init_racers:
  fixes t :: "'g game"
  shows "uniform_ok R \<Longrightarrow> game_inv s \<Longrightarrow> finish_order t = finish_order s \<Longrightarrow> next_oid t = next_oid s \<Longrightarrow>
   (race_complete t \<longrightarrow> racing t) \<Longrightarrow> game_inv (init_racers R t)"
  by (rule init_racers_game_inv) (auto simp: game_inv_def)

lemma handle_event_game_inv:
  fixes s :: "'g game"
  assumes U: "uniform_ok R" and R: "randint_ok R" and inv: "game_inv s"
    and h: "handle_event R now s e = Inr s'"
  shows "game_inv s'"
proof (cases e)
  case (KEYDOWN k)
  have c: "race_complete s \<longrightarrow> racing s" using inv by (simp add: game_inv_def)
  show ?thesis
  proof (cases "k = K_SPACE \<and> \<not> racing s")
    case True
    then show ?thesis using h KEYDOWN start_race_game_inv [OF R inv] by (simp add: handle_event_def)
  next
    case False
    then show ?thesis
      using h KEYDOWN inv c game_inv_init_racers [OF U inv]
      by (cases k) (auto simp: handle_event_def split: if_splits)
  qed
qed (use h inv in \<open>auto simp: handle_event_def\<close>)

lemma handle_events_game_inv:
  fixes s :: "'g game"
  shows "uniform_ok R \<Longrightarrow> randint_ok R \<Longrightarrow> game_inv s \<Longrightarrow> handle_events R now s es = Inr s' \<Longrightarrow> game_inv s'"
proof (induction es arbitrary: s)
  case (Cons e es)
  then show ?case
    using handle_event_game_inv [of R s now e] by (auto split: sum.splits)
qed simp

lemma game_update_eq:
  "racing s \<Longrightarrow> \<not> race_complete s \<Longrightarrow>
   update_loop R now (race_start_time s) dt (racers s) (finish_order s) (rng s) True = (rs', fo', g', af') \<Longrightarrow>
   game_update R now dt s = s\<lparr>racers := rs', finish_order := fo', rng := g', race_complete := af'\<rparr>"
  by (simp add: game_update_def)

lemma game_update_game_inv:
  fixes s :: "'g game"
  assumes inv: "game_inv s" and dt: "0 \<le> dt"
  shows "game_inv (game_update R now dt s)"
proof (cases "racing s \<and> \<not> race_complete s")
  case True
  obtain rs' fo' g' af' where u:
    "update_loop R now (race_start_time s) dt (racers s) (finish_order s) (rng s) True = (rs', fo', g', af')"
    by (cases "update_loop R now (race_start_time s) dt (racers s) (finish_order s) (rng s) True") auto
  note F = update_loop_facts [OF u]
  have oid: "map oid rs' = map oid (racers s)" and lane: "map lane rs' = map lane (racers s)"
    and y: "map y_pos rs' = map y_pos (racers s)" using F by blast+
  have "length rs' = length (racers s)" using arg_cong [OF oid, of length] by simp
  then have l: "length rs' = 6" using inv by (simp add: game_inv_def)
  have rows: "\<forall>i < 6. y_pos (rs' ! i) = 200 + int i * 60"
  proof (intro allI impI)
    fix i :: nat assume "i < 6"
    then have "y_pos (rs' ! i) = y_pos (racers s ! i)" using y l by (metis length_map nth_map)
    then show "y_pos (rs' ! i) = 200 + int i * 60" using inv \<open>i < 6\<close> by (simp add: game_inv_def)
  qed
  have lt: "\<forall>r \<in> set rs'. oid r < next_oid s"
  proof
    fix r assume "r \<in> set rs'"
    then have "oid r \<in> set (map oid (racers s))" unfolding oid [symmetric] by simp
    then show "oid r < next_oid s" using inv by (auto simp: game_inv_def)
  qed
  have fo: "distinct (map oid fo') \<and> (\<forall>k \<in> set (map oid fo'). k < next_oid s)"
  proof -
    have "distinct (map oid (finish_order s)) \<longrightarrow> distinct (map oid fo')" using F by blast
    then have "distinct (map oid fo')" using inv by (simp add: game_inv_def)
    moreover have "set (map oid fo') \<subseteq> set (map oid (finish_order s)) \<union> set (map oid (racers s))" using F by blast
    ultimately show ?thesis using inv by (auto simp: game_inv_def)
  qed
  have "(\<forall>r \<in> set (racers s). attrs_ok r \<and> motion_ok r) \<and> 0 \<le> dt \<longrightarrow> (\<forall>r \<in> set rs'. attrs_ok r \<and> motion_ok r)"
    using F by blast
  then have ok: "\<forall>r \<in> set rs'. attrs_ok r \<and> motion_ok r" using inv dt by (simp add: game_inv_def)
  have fin: "\<forall>r \<in> set rs'. finished r \<longrightarrow> oid r \<in> set (map oid fo')" using F by blast
  have "(\<forall>r \<in> set (finish_order s). attrs_ok r) \<and> (\<forall>r \<in> set (racers s). attrs_ok r) \<longrightarrow>
        (\<forall>r \<in> set fo'. attrs_ok r)" using F by blast
  moreover have "(\<forall>r \<in> set (finish_order s). attrs_ok r) \<and> (\<forall>r \<in> set (racers s). attrs_ok r)"
    using inv by (simp add: game_inv_def)
  ultimately have foa: "\<forall>r \<in> set fo'. attrs_ok r" by blast
  have "distinct (map oid rs')" using inv oid by (simp add: game_inv_def)
  then show ?thesis
    using game_update_eq [OF _ _ u] True l lane rows lt fo ok fin foa inv
    by (simp add: game_inv_def)
next
  case False
  have "game_update R now dt s = s" unfolding game_update_def using False by (rule if_not_P)
  then show ?thesis using inv by simp
qed

lemma frame_game_inv:
  fixes s :: "'g game"
  shows "uniform_ok R \<Longrightarrow> randint_ok R \<Longrightarrow> game_inv s \<Longrightarrow> 0 \<le> dt \<Longrightarrow> frame R now dt evs s = Inr s' \<Longrightarrow>
         game_inv s'"
  using handle_events_game_inv [of R s now evs] game_update_game_inv
  by (auto simp: frame_def split: sum.splits)


lemma game_init_inv: "uniform_ok R \<Longrightarrow> game_inv (game_init R g)"
  unfolding game_init_def by (rule init_racers_game_inv) simp_all

lemma reach_inv: "reach R s \<Longrightarrow> uniform_ok R \<Longrightarrow> randint_ok R \<Longrightarrow> game_inv s"
proof (induction rule: reach.induct)
  case (init g)
  then show ?case using game_init_inv [of R g] by simp
next
  case (step s dt now evs s')
  then show ?case using frame_game_inv by blast
qed

lemma start_race_total:
  fixes s :: "'g game"
  shows "randint_ok R \<Longrightarrow> game_inv s \<Longrightarrow> \<exists>s'. start_race R now s = Inr s'"
  using start_race_result [of R s now] by (force simp: game_inv_def)

lemma handle_event_total:
  fixes s :: "'g game"
  assumes "randint_ok R" "game_inv s"
  shows "\<exists>s'. handle_event R now s e = Inr s'"
  using start_race_total [OF assms, of now]
  by (auto simp: handle_event_def split: event.split)

lemma handle_events_total:
  fixes s :: "'g game"
  shows "uniform_ok R \<Longrightarrow> randint_ok R \<Longrightarrow> game_inv s \<Longrightarrow> \<exists>s'. handle_events R now s es = Inr s'"
proof (induction es arbitrary: s)
  case (Cons e es)
  obtain t where t: "handle_event R now s e = Inr t" using handle_event_total [OF Cons.prems(2,3)] by blast
  have "game_inv t" using handle_event_game_inv [OF Cons.prems t] .
  then show ?case using Cons.IH [OF Cons.prems(1,2)] t by simp
qed simp

lemma frame_total:
  fixes s :: "'g game"
  shows "uniform_ok R \<Longrightarrow> randint_ok R \<Longrightarrow> game_inv s \<Longrightarrow> \<exists>s'. frame R now dt evs s = Inr s'"
  using handle_events_total [of R s now evs] by (auto simp: frame_def)


lemma attrs_ok_key: "attrs_ok r \<Longrightarrow> 58 \<le> sort_value r \<and> sort_value r \<le> 91"
  using key_bounds [of "base_speed r" "acceleration r" "handling r"]
  by (simp add: attrs_ok_def calculate_sort_value_def)

lemma motion_ok_x: "motion_ok r \<Longrightarrow> 100 \<le> x_pos r \<and> x_pos r \<le> of_int (SCREEN_WIDTH - 150)"
  by (auto simp: motion_ok_def SCREEN_WIDTH_def split: if_splits)

lemma game_update_frame:
  "racing (game_update R now dt s) = racing s \<and> next_oid (game_update R now dt s) = next_oid s \<and>
   race_start_time (game_update R now dt s) = race_start_time s"
  by (simp add: game_update_def split_beta)

lemma map_six:
  assumes "length xs = 6"
  shows "map f xs = [f (xs ! 0), f (xs ! 1), f (xs ! 2), f (xs ! 3), f (xs ! 4), f (xs ! 5)]"
proof (rule nth_equalityI)
  fix i assume "i < length (map f xs)"
  then have "i < 6" using assms by simp
  then consider "i = 0" | "i = 1" | "i = 2" | "i = 3" | "i = 4" | "i = 5" by linarith
  then show "map f xs ! i = [f (xs ! 0), f (xs ! 1), f (xs ! 2), f (xs ! 3), f (xs ! 4), f (xs ! 5)] ! i"
    using assms by cases simp_all
qed (use assms in simp)

lemma game_init_flags:
  fixes R :: "'g random_module" and g :: 'g
  shows "racing (game_init R g) = False \<and> race_complete (game_init R g) = False \<and> running (game_init R g) \<and>
   finish_order (game_init R g) = [] \<and> algorithm_mode (game_init R g) = RANDOMIZED \<and>
   \<not> show_comparison (game_init R g)"
proof -
  have "registry.more (game_init R g) =
    registry.more (\<lparr>racers = [], sort_operations = 0, pivot_highlights = [], rng = g, next_oid = 0,
       running = True, racing = False, race_complete = False, algorithm_mode = RANDOMIZED,
       show_comparison = False, finish_order = [], race_start_time = 0\<rparr> :: 'g game)"
    unfolding game_init_def by (rule conjunct1 [OF conjunct2 [OF conjunct2 [OF conjunct2 [OF conjunct2 [OF init_racers_facts]]]]])
  from registry_more_game [OF this] show ?thesis by simp
qed

lemma init_racers_game_fields:
  fixes t :: "'g game"
  shows "racing (init_racers R t) = racing t \<and> race_complete (init_racers R t) = race_complete t \<and>
   finish_order (init_racers R t) = finish_order t \<and> algorithm_mode (init_racers R t) = algorithm_mode t \<and>
   sort_operations (init_racers R t) = sort_operations t \<and> pivot_highlights (init_racers R t) = pivot_highlights t \<and>
   next_oid (init_racers R t) = next_oid t + 6 \<and>
   (\<forall>r \<in> set (racers (init_racers R t)). \<not> power_active r \<and> \<not> finished r \<and> next_oid t \<le> oid r)"
proof -
  note f = init_racers_facts [of R t]
  have "\<forall>r \<in> set (racers (init_racers R t)). \<not> power_active r \<and> \<not> finished r \<and> next_oid t \<le> oid r"
  proof
    fix r assume "r \<in> set (racers (init_racers R t))"
    then obtain i where "i < 6" "r = racers (init_racers R t) ! i" using f by (auto simp: in_set_conv_nth)
    then show "\<not> power_active r \<and> \<not> finished r \<and> next_oid t \<le> oid r" using f by (simp add: fresh_racer_def)
  qed
  then show ?thesis using f registry_more_game [of "init_racers R t" t] by simp
qed

text \<open>C13: In every state the game loop reaches, the race has six racers with
  pairwise distinct identities in lanes 0 to 5; the finish order has no
  duplicates and holds every racer that has finished; every key lies in
  \<open>[58, 91]\<close>; and every racer is drawn between the start line at 100 and the
  finish line at 1050.\<close>

theorem reach_game_invariant:
  assumes "reach R s" "uniform_ok R" "randint_ok R"
  shows "length (racers s) = 6 \<and> distinct (map oid (racers s)) \<and>
         mset (map lane (racers s)) = mset [0, 1, 2, 3, 4, 5] \<and>
         distinct (map oid (finish_order s)) \<and>
         (\<forall>r \<in> set (racers s). finished r \<longrightarrow> oid r \<in> set (map oid (finish_order s))) \<and>
         (\<forall>r \<in> set (racers s). 58 \<le> sort_value r \<and> sort_value r \<le> 91 \<and> 100 \<le> x_pos r \<and> x_pos r \<le> 1050) \<and>
         (race_complete s \<longrightarrow> racing s)"
proof -
  have I: "game_inv s" using reach_inv [OF assms] .
  have "\<forall>r \<in> set (racers s). 58 \<le> sort_value r \<and> sort_value r \<le> 91 \<and> 100 \<le> x_pos r \<and> x_pos r \<le> 1050"
    using I attrs_ok_key motion_ok_x by (fastforce simp: game_inv_def SCREEN_WIDTH_def)
  moreover have "mset (map int [0..<6]) = mset [0, 1, 2, 3, 4, 5]" by (simp add: upt_rec)
  ultimately show ?thesis using I by (simp add: game_inv_def)
qed

theorem reach_game_invariant_witness:
  "reach lcg (game_init lcg 1) \<and> uniform_ok lcg \<and> randint_ok lcg \<and>
   length (racers (game_init lcg 1)) = 6 \<and> distinct (map oid (racers (game_init lcg 1)))"
  using reach_game_invariant [OF reach.init [of lcg 1] lcg_uniform_ok lcg_randint_ok]
  by (simp add: reach.init lcg_uniform_ok lcg_randint_ok)

text \<open>C14: No frame of the game loop raises an exception in a reachable state:
  in particular \<open>find_median\<close> inside \<open>start_race\<close> never meets an empty
  list, whatever events and tick the frame brings.\<close>

theorem frame_never_raises:
  "reach R s \<Longrightarrow> uniform_ok R \<Longrightarrow> randint_ok R \<Longrightarrow> \<exists>s'. frame R now dt evs s = Inr s'"
  using frame_total reach_inv by blast

theorem frame_never_raises_witness:
  "reach lcg (game_init lcg 1) \<and> uniform_ok lcg \<and> randint_ok lcg \<and>
   (\<exists>s'. frame lcg 0 (1 / 60) [KEYDOWN K_SPACE] (game_init lcg 1) = Inr s')"
  using frame_never_raises [OF reach.init [of lcg 1] lcg_uniform_ok lcg_randint_ok,
      where now = 0 and dt = "1 / 60" and evs = "[KEYDOWN K_SPACE]"]
  by (simp add: reach.init lcg_uniform_ok lcg_randint_ok)

text \<open>C15: \<open>run\<close> started in a reachable state, over any finite sequence of
  frames with non-negative ticks, returns normally in a reachable state: no
  exception escapes the main loop.\<close>

theorem run_returns:
  "reach R s \<Longrightarrow> uniform_ok R \<Longrightarrow> randint_ok R \<Longrightarrow> list_all (\<lambda>(now, dt, evs). 0 \<le> dt) fs \<Longrightarrow>
   \<exists>s'. run R fs s = Inr s' \<and> reach R s'"
proof (induction fs arbitrary: s)
  case Nil
  then show ?case by simp
next
  case (Cons f fs)
  obtain now dt evs where f: "f = (now, dt, evs)" by (cases f) auto
  show ?case
  proof (cases "running s")
    case True
    obtain t where t: "frame R now dt evs s = Inr t"
      using frame_total [OF Cons.prems(2,3) reach_inv [OF Cons.prems(1-3)]] by blast
    have "reach R t" using reach.step [OF Cons.prems(1) True _ t] Cons.prems(4) f by simp
    then show ?thesis using Cons.IH [OF _ Cons.prems(2,3)] Cons.prems(4) True t f by simp
  qed (use Cons.prems f in simp)
qed

theorem run_returns_witness:
  "reach lcg (game_init lcg 1) \<and> uniform_ok lcg \<and> randint_ok lcg \<and>
   list_all (\<lambda>(now, dt, evs). 0 \<le> dt) [(0 :: real, 1 / 60 :: real, [KEYDOWN K_SPACE]), (1 / 60, 1 / 60, [QUIT])] \<and>
   (\<exists>s'. run lcg [(0, 1 / 60, [KEYDOWN K_SPACE]), (1 / 60, 1 / 60, [QUIT])] (game_init lcg 1) = Inr s' \<and>
         reach lcg s')"
  using run_returns [OF reach.init [of lcg 1] lcg_uniform_ok lcg_randint_ok,
      of "[(0, 1 / 60, [KEYDOWN K_SPACE]), (1 / 60, 1 / 60, [QUIT])]"]
  by (simp add: reach.init lcg_uniform_ok lcg_randint_ok del: run.simps)


text \<open>C16: \<open>start_race\<close> from any well-formed state returns normally with the
  race running, the finish order empty, the racers ordered by key (a
  permutation of the racers it was given), each in the row of its position,
  at the start line, and with the power boost on exactly the racer at index 3,
  the upper median of the six keys.\<close>

theorem start_race_spec:
  assumes "randint_ok R" "game_inv s"
  shows "\<exists>s'. start_race R now s = Inr s' \<and> racing s' \<and> \<not> race_complete s' \<and> finish_order s' = [] \<and>
     sorted (map sort_value (racers s')) \<and> mset (map oid (racers s')) = mset (map oid (racers s)) \<and>
     map y_pos (racers s') = [200, 260, 320, 380, 440, 500] \<and>
     map power_active (racers s') = [False, False, False, True, False, False] \<and>
     list_all (\<lambda>r. x_pos r = 100 \<and> position r = 0 \<and> speed r = 0 \<and> \<not> finished r) (racers s')"
proof -
  have l: "length (racers s) = 6" and ne: "racers s \<noteq> []" and d: "distinct (map oid (racers s))"
    using assms(2) by (auto simp: game_inv_def)
  obtain t where t: "start_race R now s = Inr t" and
    P: "racing t \<and> \<not> race_complete t \<and> finish_order t = [] \<and> length (racers t) = length (racers s) \<and>
     sorted (map sort_value (racers t)) \<and> mset (map oid (racers t)) = mset (map oid (racers s)) \<and>
     (\<forall>i < length (racers t).
        y_pos (racers t ! i) = 200 + int i * 60 \<and> position (racers t ! i) = 0 \<and>
        x_pos (racers t ! i) = 100 \<and> speed (racers t ! i) = 0 \<and> \<not> finished (racers t ! i) \<and>
        (power_active (racers t ! i) \<longleftrightarrow> i = length (racers s) div 2))"
    using start_race_result [OF assms(1) ne d, of now] by blast
  have lt: "length (racers t) = 6" using P l by simp
  have "map y_pos (racers t) = [200, 260, 320, 380, 440, 500]"
    using P l unfolding map_six [OF lt] by simp
  moreover have "map power_active (racers t) = [False, False, False, True, False, False]"
    using P l unfolding map_six [OF lt] by simp
  moreover have "list_all (\<lambda>r. x_pos r = 100 \<and> position r = 0 \<and> speed r = 0 \<and> \<not> finished r) (racers t)"
    using P by (auto simp: list_all_length)
  ultimately show ?thesis using t P by (intro exI [of _ t] conjI) simp_all
qed

theorem start_race_spec_witness:
  "randint_ok lcg \<and> game_inv (game_init lcg 1) \<and>
   (\<exists>s'. start_race lcg 0 (game_init lcg 1) = Inr s' \<and> sorted (map sort_value (racers s')) \<and>
         map power_active (racers s') = [False, False, False, True, False, False])"
proof -
  have i: "game_inv (game_init lcg 1)" using game_init_inv [OF lcg_uniform_ok, of 1] .
  have "\<exists>s'. start_race lcg 0 (game_init lcg 1) = Inr s' \<and> sorted (map sort_value (racers s')) \<and>
         map power_active (racers s') = [False, False, False, True, False, False]"
    using start_race_spec [OF lcg_randint_ok i, where now = 0]
    by (elim exE conjE) (intro exI conjI; assumption)
  then show ?thesis using lcg_randint_ok i by (intro conjI)
qed

text \<open>C17: While a race runs, one \<open>update\<close> keeps it running, only appends to
  the finish order, and sets \<open>race_complete\<close> exactly when every racer has
  finished after the frame.\<close>

theorem game_update_completion:
  assumes "racing s" "\<not> race_complete s"
  shows "racing (game_update R now dt s) \<and>
    (race_complete (game_update R now dt s) \<longleftrightarrow> (\<forall>r \<in> set (racers (game_update R now dt s)). finished r)) \<and>
    (\<exists>ext. finish_order (game_update R now dt s) = finish_order s @ ext)"
proof -
  obtain rs' fo' g' af' where u:
    "update_loop R now (race_start_time s) dt (racers s) (finish_order s) (rng s) True = (rs', fo', g', af')"
    by (cases "update_loop R now (race_start_time s) dt (racers s) (finish_order s) (rng s) True") auto
  have af: "af' = (\<forall>r \<in> set rs'. finished r)" and fo: "\<exists>ext. fo' = finish_order s @ ext"
    using update_loop_facts [OF u] by simp_all
  show ?thesis using game_update_eq [OF assms u] af fo assms(1) by simp
qed

theorem game_update_completion_witness:
  "racing ((game_init lcg 1)\<lparr>racing := True\<rparr>) \<and> \<not> race_complete ((game_init lcg 1)\<lparr>racing := True\<rparr>) \<and>
   racing (game_update lcg 0 (1 / 60) ((game_init lcg 1)\<lparr>racing := True\<rparr>))"
  using game_update_completion [of "(game_init lcg 1)\<lparr>racing := True\<rparr>" lcg 0 "1 / 60"]
  by (simp add: game_init_flags)

text \<open>C18: Pressing R (and likewise D) during a race re-initialises the racers
  but leaves the race running: the new racers are unsorted, none has the
  median power boost, the finish order keeps only racers that are no longer
  in the race, the previous sort's instrumentation stays, and SPACE is then
  ignored, so no sort happens before the race ends.\<close>

theorem mode_key_during_race:
  assumes "game_inv s" "racing s" "handle_event R now s (KEYDOWN K_r) = Inr s'"
  shows "racing s' \<and> race_complete s' = race_complete s \<and> finish_order s' = finish_order s \<and>
    set (map oid (finish_order s')) \<inter> set (map oid (racers s')) = {} \<and>
    sort_operations s' = sort_operations s \<and> pivot_highlights s' = pivot_highlights s \<and>
    (\<forall>r \<in> set (racers s'). \<not> power_active r \<and> \<not> finished r) \<and>
    handle_event R now s' (KEYDOWN K_SPACE) = Inr s'"
proof -
  have e: "s' = init_racers R (s\<lparr>algorithm_mode := RANDOMIZED\<rparr>)"
    using assms(3) by (simp add: handle_event_def)
  note f = init_racers_game_fields [of R "s\<lparr>algorithm_mode := RANDOMIZED\<rparr>"]
  have "\<forall>k \<in> set (map oid (finish_order s)). k < next_oid s" using assms(1) by (simp add: game_inv_def)
  then have "set (map oid (finish_order s')) \<inter> set (map oid (racers s')) = {}"
    using f unfolding e by fastforce
  moreover have "handle_event R now s' (KEYDOWN K_SPACE) = Inr s'"
    using f assms(2) unfolding e by (simp add: handle_event_def)
  ultimately show ?thesis using f assms(2) unfolding e by simp
qed

theorem mode_key_during_race_witness:
  "game_inv ((game_init lcg 1)\<lparr>racing := True\<rparr>) \<and> racing ((game_init lcg 1)\<lparr>racing := True\<rparr>) \<and>
   handle_event lcg 0 ((game_init lcg 1)\<lparr>racing := True\<rparr>) (KEYDOWN K_r) =
     Inr (init_racers lcg ((game_init lcg 1)\<lparr>racing := True, algorithm_mode := RANDOMIZED\<rparr>)) \<and>
   racing (init_racers lcg ((game_init lcg 1)\<lparr>racing := True, algorithm_mode := RANDOMIZED\<rparr>))"
proof -
  have i: "game_inv ((game_init lcg 1)\<lparr>racing := True\<rparr>)"
    using game_init_inv [OF lcg_uniform_ok, of 1] by (simp add: game_inv_def)
  have h: "handle_event lcg 0 ((game_init lcg 1)\<lparr>racing := True\<rparr>) (KEYDOWN K_r) =
     Inr (init_racers lcg ((game_init lcg 1)\<lparr>racing := True, algorithm_mode := RANDOMIZED\<rparr>))"
    by (simp add: handle_event_def)
  show ?thesis using mode_key_during_race [OF i _ h] i h by simp
qed

end
