(* ===== verification/Liveness.thy ===== *)
theory Liveness
  imports Lifecycle
begin

text \<open>
  Progress of a race. A racer that has not finished moves, in one call of
  \<open>Racer.update\<close> with a tick of at least \<open>d\<close>, by at least
  \<open>min (20 d) 80 * d\<close>: its speed after the acceleration step is at least the
  smaller of \<open>acceleration * dt\<close> and \<open>base_speed\<close>, both bounded below by the
  ranges \<open>init_racers\<close> draws from, whatever \<open>random.random()\<close> returns. A
  racer that has not finished is left of the finish line, at
  \<open>position < 475\<close>. So a race that the player leaves alone (no events, the
  comparison screen closed) completes once the frames add up to
  \<open>475 / (min (20 d) 80 * d)\<close> steps.
\<close>

definition step_bound :: "real \<Rightarrow> real" where
  "step_bound d = min (20 * d) 80 * d"

text \<open>A game the player has just started: the constructed game after one
  frame in which SPACE was pressed, with the seeded generator.\<close>

definition started_game :: "nat game" where
  "started_game = projr (frame lcg 0 0 [KEYDOWN K_SPACE] (game_init lcg 1))"

lemma step_bound_pos: "0 < d \<Longrightarrow> 0 < step_bound d"
  by (simp add: step_bound_def)

lemma racer_update_position:
  "\<not> finished r \<Longrightarrow>
   position (fst (racer_update R dt b r g)) =
     position r + min (speed r + acceleration r * dt * b) (base_speed r * b) * dt"
  by (simp add: racer_update_def Let_def split_beta)

lemma min_speed_bound:
  fixes acc bs sp d dt b :: real
  assumes acc: "20 \<le> acc" and bs: "80 \<le> bs" and sp: "0 \<le> sp" and d: "0 < d" "d \<le> dt" and b: "1 \<le> b"
  shows "min (20 * d) 80 * d \<le> min (sp + acc * dt * b) (bs * b) * dt"
proof -
  have "20 * d \<le> acc * dt" using acc d by (intro mult_mono) simp_all
  also have "acc * dt \<le> acc * dt * b"
  proof -
    have "0 \<le> acc * dt" using acc d by (intro mult_nonneg_nonneg) simp_all
    then have "acc * dt * 1 \<le> acc * dt * b" using b by (intro mult_left_mono)
    then show ?thesis by simp
  qed
  finally have s1: "20 * d \<le> sp + acc * dt * b" using sp by linarith
  have "bs * 1 \<le> bs * b" using bs b by (intro mult_left_mono) simp_all
  then have "80 \<le> bs * b" using bs by linarith
  then have "min (20 * d) 80 \<le> min (sp + acc * dt * b) (bs * b)"
    using s1 by linarith
  moreover have "0 \<le> min (20 * d) 80" using d by simp
  ultimately show ?thesis using d by (intro mult_mono) linarith+
qed

lemma speed_lower_bound:
  fixes d dt b :: real
  assumes a: "attrs_ok r" and m: "motion_ok r" and d: "0 < d" "d \<le> dt" and b: "1 \<le> b"
  shows "step_bound d \<le> min (speed r + acceleration r * dt * b) (base_speed r * b) * dt"
  unfolding step_bound_def
  by (rule min_speed_bound) (use a m d b in \<open>simp_all add: attrs_ok_def motion_ok_def\<close>)

lemma update_racer_progress:
  assumes u: "update_racer R now t0 dt r fo g = (r', fo', g')"
    and a: "attrs_ok r" and m: "motion_ok r" and d: "0 < d" "d \<le> dt" and nf: "\<not> finished r"
  shows "finished r' \<or> position r + step_bound d \<le> position r'"
proof -
  obtain b where b: "1 \<le> b" "position r' = position (fst (racer_update R dt b r g))"
    "finished r' = finished (fst (racer_update R dt b r g))"
    using update_racer_facts [OF u] by blast
  show ?thesis
    using b racer_update_position [OF nf, of R dt b g] speed_lower_bound [OF a m d b(1)] by simp
qed

lemma update_loop_nth:
  "update_loop R now t0 dt rs fo g af = (rs', fo', g', af') \<Longrightarrow>
   length rs' = length rs \<and>
   (\<forall>k < length rs. \<exists>fo1 g1 fo2 g2. update_racer R now t0 dt (rs ! k) fo1 g1 = (rs' ! k, fo2, g2))"
proof (induction rs arbitrary: fo g af rs' fo' g' af')
  case (Cons r rs)
  obtain r1 fo1 g1 where u1: "update_racer R now t0 dt r fo g = (r1, fo1, g1)"
    by (cases "update_racer R now t0 dt r fo g") auto
  obtain rs2 fo2 g2 af2 where u2: "update_loop R now t0 dt rs fo1 g1 (af \<and> finished r1) = (rs2, fo2, g2, af2)"
    by (cases "update_loop R now t0 dt rs fo1 g1 (af \<and> finished r1)") auto
  have e: "rs' = r1 # rs2" using Cons.prems u1 u2 by simp
  note IH = Cons.IH [OF u2]
  show ?case
  proof (intro conjI allI impI)
    fix k assume k: "k < length (r # rs)"
    show "\<exists>fo1 g1 fo2 g2. update_racer R now t0 dt ((r # rs) ! k) fo1 g1 = (rs' ! k, fo2, g2)"
    proof (cases k)
      case 0
      then show ?thesis using u1 e by auto
    next
      case (Suc j)
      then show ?thesis using IH k e by auto
    qed
  qed (use IH e in simp)
qed simp


lemma game_update_progress:
  fixes s :: "'g game"
  assumes inv: "game_inv s" and rc: "racing s" and d: "0 < d" "d \<le> dt"
    and P: "race_complete s \<or> (\<forall>r \<in> set (racers s). \<not> finished r \<longrightarrow> real k * step_bound d \<le> position r)"
  shows "race_complete (game_update R now dt s) \<or>
    (\<forall>r \<in> set (racers (game_update R now dt s)). \<not> finished r \<longrightarrow> real (Suc k) * step_bound d \<le> position r)"
proof (cases "race_complete s")
  case True
  have "game_update R now dt s = s" unfolding game_update_def using True by simp
  then show ?thesis using True by simp
next
  case False
  obtain rs' fo' g' af' where u:
    "update_loop R now (race_start_time s) dt (racers s) (finish_order s) (rng s) True = (rs', fo', g', af')"
    by (cases "update_loop R now (race_start_time s) dt (racers s) (finish_order s) (rng s) True") auto
  have e: "racers (game_update R now dt s) = rs'" using game_update_eq [OF rc False u] by simp
  note N = update_loop_nth [OF u]
  have "\<forall>r \<in> set rs'. \<not> finished r \<longrightarrow> real (Suc k) * step_bound d \<le> position r"
  proof (intro ballI impI)
    fix r assume r: "r \<in> set rs'" and nf: "\<not> finished r"
    then obtain j where j: "j < length rs'" "r = rs' ! j" by (auto simp: in_set_conv_nth)
    then have jl: "j < length (racers s)" using N by simp
    then obtain fo1 g1 fo2 g2 where ur: "update_racer R now (race_start_time s) dt (racers s ! j) fo1 g1 = (r, fo2, g2)"
      using N j by blast
    have x: "racers s ! j \<in> set (racers s)" using jl by simp
    then have am: "attrs_ok (racers s ! j)" "motion_ok (racers s ! j)" using inv by (simp_all add: game_inv_def)
    have "finished (racers s ! j) \<longrightarrow> finished r" using update_racer_facts [OF ur] by blast
    then have nf0: "\<not> finished (racers s ! j)" using nf by blast
    have "real k * step_bound d \<le> position (racers s ! j)" using P False x nf0 by blast
    moreover have "position (racers s ! j) + step_bound d \<le> position r"
      using update_racer_progress [OF ur am d nf0] nf by blast
    ultimately show "real (Suc k) * step_bound d \<le> position r" by (simp add: algebra_simps)
  qed
  then show ?thesis using e by simp
qed

lemma game_update_settles:
  fixes s :: "'g game"
  assumes "racing s"
  shows "race_complete (game_update R now dt s) \<or> \<not> (\<forall>r \<in> set (racers (game_update R now dt s)). finished r)"
proof (cases "race_complete s")
  case True
  have "game_update R now dt s = s" unfolding game_update_def using True by simp
  then show ?thesis using True by simp
next
  case False
  obtain rs' fo' g' af' where u:
    "update_loop R now (race_start_time s) dt (racers s) (finish_order s) (rng s) True = (rs', fo', g', af')"
    by (cases "update_loop R now (race_start_time s) dt (racers s) (finish_order s) (rng s) True") auto
  have "af' = (\<forall>r \<in> set rs'. finished r)" using update_loop_facts [OF u] by simp
  then show ?thesis using game_update_eq [OF assms False u] by auto
qed

lemma game_update_flags:
  "running (game_update R now dt s) = running s \<and> show_comparison (game_update R now dt s) = show_comparison s \<and>
   racing (game_update R now dt s) = racing s"
  by (simp add: game_update_def split_beta)

lemma quiet_run_progress:
  fixes s :: "'g game"
  assumes "game_inv s" "racing s" "running s" "\<not> show_comparison s" "0 < d"
    "list_all (\<lambda>(now, dt). d \<le> dt) fs"
    "race_complete s \<or> (\<forall>r \<in> set (racers s). \<not> finished r \<longrightarrow> real k * step_bound d \<le> position r)"
  shows "\<exists>s'. run R (map (\<lambda>(now, dt). (now, dt, [])) fs) s = Inr s' \<and> game_inv s' \<and>
    (race_complete s' \<or> (\<forall>r \<in> set (racers s'). \<not> finished r \<longrightarrow> real (k + length fs) * step_bound d \<le> position r)) \<and>
    (fs \<noteq> [] \<longrightarrow> race_complete s' \<or> \<not> (\<forall>r \<in> set (racers s'). finished r))"
  using assms
proof (induction fs arbitrary: s k)
  case Nil
  then show ?case by simp
next
  case (Cons f fs)
  obtain now dt where f: "f = (now, dt)" by (cases f)
  have dt: "d \<le> dt" using Cons.prems(6) f by simp
  define s1 where "s1 = game_update R now dt s"
  have step: "run R (map (\<lambda>(now, dt). (now, dt, [])) (f # fs)) s = run R (map (\<lambda>(now, dt). (now, dt, [])) fs) s1"
    using Cons.prems(3,4) f by (simp add: frame_def s1_def)
  have i1: "game_inv s1" using game_update_game_inv [OF Cons.prems(1)] Cons.prems(5) dt by (simp add: s1_def)
  have fl: "racing s1" "running s1" "\<not> show_comparison s1"
    using game_update_flags [of R now dt s] Cons.prems(2-4) by (simp_all add: s1_def)
  have p1: "race_complete s1 \<or> (\<forall>r \<in> set (racers s1). \<not> finished r \<longrightarrow> real (Suc k) * step_bound d \<le> position r)"
    using game_update_progress [OF Cons.prems(1,2,5) dt Cons.prems(7)] by (simp add: s1_def)
  have q1: "race_complete s1 \<or> \<not> (\<forall>r \<in> set (racers s1). finished r)"
    using game_update_settles [OF Cons.prems(2)] by (simp add: s1_def)
  obtain s' where s': "run R (map (\<lambda>(now, dt). (now, dt, [])) fs) s1 = Inr s'" "game_inv s'"
    "race_complete s' \<or> (\<forall>r \<in> set (racers s'). \<not> finished r \<longrightarrow> real (Suc k + length fs) * step_bound d \<le> position r)"
    "fs \<noteq> [] \<longrightarrow> race_complete s' \<or> \<not> (\<forall>r \<in> set (racers s'). finished r)"
    using Cons.IH [OF i1 fl Cons.prems(5) _ p1] Cons.prems(6) by auto
  have "race_complete s' \<or> \<not> (\<forall>r \<in> set (racers s'). finished r)"
  proof (cases "fs = []")
    case True
    then have "s' = s1" using s'(1) by simp
    then show ?thesis using q1 by simp
  qed (use s'(4) in blast)
  then show ?case using s' step by auto
qed


lemma unfinished_before_line: "motion_ok r \<Longrightarrow> \<not> finished r \<Longrightarrow> position r < 475"
  by (simp add: motion_ok_def SCREEN_WIDTH_def)

lemma started_game_facts:
  "reach lcg started_game \<and> racing started_game \<and> running started_game \<and> \<not> show_comparison started_game"
proof -
  have i: "game_inv (game_init lcg 1)" using game_init_inv [OF lcg_uniform_ok, of 1] .
  have ne: "racers (game_init lcg 1) \<noteq> []" and d: "distinct (map oid (racers (game_init lcg 1)))"
    using i by (auto simp: game_inv_def)
  obtain t where t: "start_race lcg 0 (game_init lcg 1) = Inr t" and
    ft: "racing t" "running t = running (game_init lcg 1)" "show_comparison t = show_comparison (game_init lcg 1)"
    using start_race_result [OF lcg_randint_ok ne d, of 0] by blast
  have fl: "racing t" "running t" "\<not> show_comparison t" using ft game_init_flags [of lcg 1] by simp_all
  have h: "handle_events lcg 0 (game_init lcg 1) [KEYDOWN K_SPACE] = Inr t"
    using t game_init_flags [of lcg 1] by (simp add: handle_event_def)
  have fr: "frame lcg 0 0 [KEYDOWN K_SPACE] (game_init lcg 1) = Inr (game_update lcg 0 0 t)"
    using h fl by (simp add: frame_def)
  have sg: "started_game = game_update lcg 0 0 t" unfolding started_game_def fr by simp
  have "reach lcg started_game"
    unfolding sg using reach.step [OF reach.init _ _ fr] game_init_flags [of lcg 1] by simp
  then show ?thesis using sg fl game_update_flags [of lcg 0 0 t] by simp
qed

text \<open>C19: A race that the player leaves alone finishes. From any reachable
  state in which a race runs and the comparison screen is closed, a run of
  frames without events whose ticks are at least \<open>d > 0\<close> ends with
  \<open>race_complete\<close> once the number of frames reaches
  \<open>475 / (min (20 d) 80 * d)\<close>, whatever \<open>random.random()\<close> returns: every
  unfinished racer gains at least \<open>step_bound d\<close> of position per frame and is
  finished at position 475.\<close>

theorem quiet_race_completes:
  assumes r: "reach R s" and u: "uniform_ok R" and ri: "randint_ok R"
    and rc: "racing s" and rn: "running s" and sc: "\<not> show_comparison s"
    and d: "0 < d" and fs: "list_all (\<lambda>(now, dt). d \<le> dt) fs"
    and n: "475 \<le> real (length fs) * step_bound d"
  shows "\<exists>s'. run R (map (\<lambda>(now, dt). (now, dt, [])) fs) s = Inr s' \<and> race_complete s'"
proof -
  have inv: "game_inv s" using reach_inv [OF r u ri] .
  have p0: "race_complete s \<or> (\<forall>r \<in> set (racers s). \<not> finished r \<longrightarrow> real 0 * step_bound d \<le> position r)"
    using inv by (auto simp: game_inv_def motion_ok_def)
  obtain s' where s': "run R (map (\<lambda>(now, dt). (now, dt, [])) fs) s = Inr s'" "game_inv s'"
    "race_complete s' \<or> (\<forall>r \<in> set (racers s'). \<not> finished r \<longrightarrow> real (0 + length fs) * step_bound d \<le> position r)"
    "fs \<noteq> [] \<longrightarrow> race_complete s' \<or> \<not> (\<forall>r \<in> set (racers s'). finished r)"
    using quiet_run_progress [OF inv rc rn sc d fs p0] by blast
  have ne: "fs \<noteq> []" using n by auto
  have "race_complete s'"
  proof (rule ccontr)
    assume nc: "\<not> race_complete s'"
    have "\<forall>r \<in> set (racers s'). finished r"
    proof (rule ballI, rule ccontr)
      fix r assume r: "r \<in> set (racers s')" and nf: "\<not> finished r"
      then have "real (length fs) * step_bound d \<le> position r" using s'(3) nc by auto
      moreover have "motion_ok r" using s'(2) r by (simp add: game_inv_def)
      then have "position r < 475" using nf by (rule unfinished_before_line)
      ultimately show False using n by linarith
    qed
    then show False using s'(4) ne nc by blast
  qed
  then show ?thesis using s'(1) by blast
qed

theorem quiet_race_completes_witness:
  "reach lcg started_game \<and> uniform_ok lcg \<and> randint_ok lcg \<and> racing started_game \<and>
   running started_game \<and> \<not> show_comparison started_game \<and> (0 :: real) < 1 / 60 \<and>
   list_all (\<lambda>(now, dt). 1 / 60 \<le> dt) (replicate 85500 (0 :: real, 1 / 60 :: real)) \<and>
   475 \<le> real (length (replicate 85500 (0 :: real, 1 / 60 :: real))) * step_bound (1 / 60) \<and>
   (\<exists>s'. run lcg (map (\<lambda>(now, dt). (now, dt, [])) (replicate 85500 (0 :: real, 1 / 60 :: real))) started_game = Inr s' \<and>
         race_complete s')"
proof -
  have b: "475 \<le> real (length (replicate 85500 (0 :: real, 1 / 60 :: real))) * step_bound (1 / 60)"
    by (simp add: step_bound_def)
  have l: "list_all (\<lambda>(now, dt). 1 / 60 \<le> dt) (replicate 85500 (0 :: real, 1 / 60 :: real))"
    by (simp add: list_all_iff)
  have g: "reach lcg started_game" "racing started_game" "running started_game" "\<not> show_comparison started_game"
    using started_game_facts by simp_all
  show ?thesis
    using quiet_race_completes [OF g(1) lcg_uniform_ok lcg_randint_ok g(2-4) _ l b] g b l
      lcg_uniform_ok lcg_randint_ok by simp
qed


lemma sort_racers_more: "engine.more (sort_racers m R s) = engine.more s"
  by (simp add: sort_racers_def quicksort_randomized_frame quicksort_deterministic_frame)

lemma start_race_running:
  fixes s :: "'g game"
  assumes "start_race R now s = Inr s'"
  shows "running s' = running s"
proof -
  define s3 where "s3 = sort_racers (algorithm_mode s) R
    (s\<lparr>racing := True, race_complete := False, finish_order := [], race_start_time := now,
       sort_operations := 0, pivot_highlights := [], racers := map reset_racer (racers s)\<rparr>)"
  have "running s3 = running s"
    using engine_more_game [OF sort_racers_more [of "algorithm_mode s" R
      "s\<lparr>racing := True, race_complete := False, finish_order := [], race_start_time := now,
       sort_operations := 0, pivot_highlights := [], racers := map reset_racer (racers s)\<rparr>"]]
    by (simp add: s3_def)
  moreover have "\<exists>m. s' = s3\<lparr>racers := m\<rparr>"
    using assms unfolding start_race_def Let_def
    by (auto simp: s3_def split: sum.splits)
  ultimately show ?thesis by auto
qed

lemma init_racers_running:
  fixes t :: "'g game"
  shows "running (init_racers R t) = running t"
  using registry_more_game [of "init_racers R t" t] init_racers_facts [of R t] by simp

lemma handle_event_running:
  fixes s :: "'g game"
  assumes "handle_event R now s e = Inr s'"
  shows "(running s' \<longrightarrow> running s) \<and> (e = QUIT \<longrightarrow> \<not> running s')"
  using assms start_race_running [of R now s s']
  by (auto simp: handle_event_def init_racers_running split: event.splits if_splits)

lemma handle_events_running:
  fixes s :: "'g game"
  shows "handle_events R now s evs = Inr s' \<Longrightarrow> (running s' \<longrightarrow> running s) \<and> (QUIT \<in> set evs \<longrightarrow> \<not> running s')"
proof (induction evs arbitrary: s)
  case (Cons e es)
  obtain t where t: "handle_event R now s e = Inr t" and r: "handle_events R now t es = Inr s'"
    using Cons.prems by (auto split: sum.splits)
  have "(running t \<longrightarrow> running s) \<and> (e = QUIT \<longrightarrow> \<not> running t)" using handle_event_running [OF t] .
  then show ?case using Cons.IH [OF r] by auto
qed simp

lemma run_stopped: "\<not> running s \<Longrightarrow> run R fs s = Inr s"
  by (cases fs) auto

text \<open>C20: The main loop ends on QUIT. From a well-formed running game, the
  first frame whose event queue holds a QUIT event returns normally with
  \<open>running\<close> false, and \<open>run\<close> stops there: the frames after it are not
  executed.\<close>

theorem quit_stops_run:
  assumes inv: "game_inv s" and u: "uniform_ok R" and ri: "randint_ok R" and rn: "running s"
    and q: "QUIT \<in> set evs"
  shows "\<exists>s'. frame R now dt evs s = Inr s' \<and> \<not> running s' \<and> run R ((now, dt, evs) # fs) s = Inr s'"
proof -
  obtain t where t: "handle_events R now s evs = Inr t" using handle_events_total [OF u ri inv] by blast
  have nt: "\<not> running t" using handle_events_running [OF t] q by blast
  define s' where "s' = (if \<not> show_comparison t then game_update R now dt t else t)"
  have f: "frame R now dt evs s = Inr s'" using t by (simp add: frame_def s'_def)
  have ns: "\<not> running s'" using nt game_update_flags [of R now dt t] by (simp add: s'_def)
  have "run R ((now, dt, evs) # fs) s = Inr s'" using f rn run_stopped [OF ns] by simp
  then show ?thesis using f ns by blast
qed

theorem quit_stops_run_witness:
  "game_inv (game_init lcg 1) \<and> uniform_ok lcg \<and> randint_ok lcg \<and> running (game_init lcg 1) \<and>
   QUIT \<in> set [KEYDOWN K_SPACE, QUIT] \<and>
   (\<exists>s'. frame lcg 0 (1 / 60) [KEYDOWN K_SPACE, QUIT] (game_init lcg 1) = Inr s' \<and> \<not> running s' \<and>
         run lcg [(0, 1 / 60, [KEYDOWN K_SPACE, QUIT]), (1 / 60, 1 / 60, [KEYDOWN K_r])] (game_init lcg 1) = Inr s')"
proof -
  have i: "game_inv (game_init lcg 1)" using game_init_inv [OF lcg_uniform_ok, of 1] .
  have r: "running (game_init lcg 1)" using game_init_flags [of lcg 1] by simp
  show ?thesis
    using quit_stops_run [OF i lcg_uniform_ok lcg_randint_ok r, of "[KEYDOWN K_SPACE, QUIT]" 0 "1 / 60"
        "[(1 / 60, 1 / 60, [KEYDOWN K_r])]"]
      i r lcg_uniform_ok lcg_randint_ok
    by (simp del: run.simps)
qed


text \<open>C26: While the comparison screen is shown, the race is frozen: \<open>run\<close>
  over any number of frames without events returns the state unchanged, since
  \<open>update\<close> is called only when \<open>show_comparison\<close> is false. The clock is
  not frozen: \<open>race_start_time\<close> stays, so a racer that finishes after the
  screen is closed gets a finish time that includes the pause.\<close>

theorem comparison_freezes_race:
  "show_comparison s \<Longrightarrow> run R (map (\<lambda>(now, dt). (now, dt, [])) fs) s = Inr s"
proof (induction fs)
  case (Cons f fs)
  obtain now dt where f: "f = (now, dt)" by (cases f)
  have "frame R now dt [] s = Inr s" using Cons.prems by (simp add: frame_def)
  then show ?case using Cons f by simp
qed simp

theorem comparison_freezes_race_witness:
  "show_comparison ((game_init lcg 1)\<lparr>show_comparison := True\<rparr>) \<and>
   run lcg [(0, 1 / 60, []), (1 / 60, 1 / 60, []), (2 / 60, 1 / 60, [])] ((game_init lcg 1)\<lparr>show_comparison := True\<rparr>) =
     Inr ((game_init lcg 1)\<lparr>show_comparison := True\<rparr>)"
  using comparison_freezes_race [of "(game_init lcg 1)\<lparr>show_comparison := True\<rparr>" lcg
      "[(0, 1 / 60), (1 / 60, 1 / 60), (2 / 60, 1 / 60)]"]
  by (simp del: run.simps)

end
