(* ===== verification/Render.thy ===== *)
theory Render
  imports Lifecycle
begin

text \<open>
  The drawing methods of \<open>RaceSorterGame\<close> (\<open>draw_track\<close>, \<open>draw_racers\<close>,
  \<open>draw_ui\<close>, \<open>draw_comparison\<close>, lines 228-367) and the drawing part of the
  loop of \<open>run\<close> (lines 411-427), as functions from the game state to the list
  of pygame calls they make, in order: a display list. A call is a value of
  \<open>draw_cmd\<close>: a filled or outlined rectangle \<open>(x, y, w, h)\<close> with its line
  width (0 is filled, as in \<open>pygame.draw.rect\<close>), a line, a screen fill, or a
  text blit. Coordinates are \<open>real\<close>, since \<open>racer.x\<close> is a float; the
  conversion pygame applies to float coordinates is not modelled. A text is
  kept as its font and content: literal strings and numbers printed with
  \<open>str\<close> are strings, the one float format of the source
  (\<open>{racer.finish_time:.2f}\<close>) is kept as the value it prints; a blit placed
  by \<open>get_rect(center=...)\<close> records the centre, since the text's size
  depends on the font's metrics. The drawing reads the state and changes none
  of it.
\<close>

definition SCREEN_HEIGHT :: int where "SCREEN_HEIGHT = 700"

definition BLACK :: color where "BLACK = (0, 0, 0)"
definition WHITE :: color where "WHITE = (255, 255, 255)"
definition ORANGE :: color where "ORANGE = (255, 150, 50)"
definition DARK_GRAY :: color where "DARK_GRAY = (64, 64, 64)"
definition LIGHT_GRAY :: color where "LIGHT_GRAY = (192, 192, 192)"

datatype font = FONT_SMALL | FONT_MEDIUM | FONT_LARGE

datatype paint = RGB color | RGBA color int

datatype label = Str string | Finish_Entry nat string real

type_synonym rect = "real \<times> real \<times> real \<times> real"

datatype draw_cmd =
    Fill color
  | Draw_Rect paint rect nat
  | Draw_Line color "real \<times> real" "real \<times> real" nat
  | Blit font label paint "real \<times> real"
  | Blit_Centered font label paint "real \<times> real"

text \<open>\<open>str(n)\<close> of a non-negative integer, and Python's \<open>int(x)\<close> of a float,
  which truncates towards zero.\<close>

fun nat_str :: "nat \<Rightarrow> string" where
  "nat_str n = (if n < 10 then [char_of (48 + n)] else nat_str (n div 10) @ [char_of (48 + n mod 10)])"

definition int_str :: "int \<Rightarrow> string" where
  "int_str i = (if i < 0 then ''-'' @ nat_str (nat (- i)) else nat_str (nat i))"

definition py_int :: "real \<Rightarrow> int" where
  "py_int x = (if 0 \<le> x then \<lfloor>x\<rfloor> else \<lceil>x\<rceil>)"

text \<open>\<open>Rect.inflate(dx, dy)\<close>: the same centre, the size grown by \<open>dx, dy\<close>.\<close>

definition inflate :: "rect \<Rightarrow> real \<Rightarrow> real \<Rightarrow> rect" where
  "inflate r dx dy = (case r of (x, y, w, h) \<Rightarrow> (x - dx / 2, y - dy / 2, w + dx, h + dy))"

text \<open>\<open>draw_track\<close> (lines 229-251), with its checkered pattern at the finish
  (lines 245-251): ten columns of eight squares of 10 by 25 pixels.\<close>

definition checkered_pattern :: "draw_cmd list" where
  "checkered_pattern =
     concat (map (\<lambda>i. map (\<lambda>j. Draw_Rect (RGB (if (i + j) mod 2 = 0 then WHITE else BLACK))
                                (of_int (SCREEN_WIDTH - 150) + real i * 10, 180 + real j * 25, 10, 25) 0)
                        [0..<8]) [0..<10])"

definition draw_track :: "draw_cmd list" where
  "draw_track =
     [Draw_Rect (RGB DARK_GRAY) (80, 180, of_int (SCREEN_WIDTH - 160), 400) 0] @
     map (\<lambda>i. Draw_Line WHITE (80, 200 + real i * 60) (of_int (SCREEN_WIDTH - 80), 200 + real i * 60) 2) [0..<7] @
     [Draw_Line GREEN (100, 180) (100, 580) 4,
      Draw_Line RED (of_int (SCREEN_WIDTH - 150), 180) (of_int (SCREEN_WIDTH - 150), 580) 4] @
     checkered_pattern"

text \<open>\<open>draw_racers\<close> (lines 251-281): per racer, in list order, the pivot
  highlight, the car and its outline, the power glow, the name and the speed.\<close>

definition car_rect :: "racer \<Rightarrow> rect" where
  "car_rect r = (x_pos r - 20, of_int (y_pos r) - 15, 40, 30)"

definition draw_racer :: "int list \<Rightarrow> nat \<Rightarrow> racer \<Rightarrow> draw_cmd list" where
  "draw_racer highlights i r =
     (if int i \<in> set highlights then [Draw_Rect (RGB YELLOW) (inflate (car_rect r) 10 10) 3] else []) @
     [Draw_Rect (RGB (color r)) (car_rect r) 0, Draw_Rect (RGB BLACK) (car_rect r) 2] @
     (if power_active r then
        map (\<lambda>j. Draw_Rect (RGBA (color r) (100 - int j * 30))
                    (inflate (car_rect r) (real ((j + 1) * 5) * 2) (real ((j + 1) * 5) * 2)) 2) [0..<3]
      else []) @
     [Blit FONT_SMALL (Str (name r)) (RGB WHITE) (x_pos r - 25, of_int (y_pos r) - 40),
      Blit FONT_SMALL (Str (int_str (py_int (speed r)))) (RGB WHITE) (x_pos r - 10, of_int (y_pos r) + 20)]"

definition draw_racers :: "('g, 'z) engine_scheme \<Rightarrow> draw_cmd list" where
  "draw_racers s = concat (map (\<lambda>(i, r). draw_racer (pivot_highlights s) i r) (enumerate 0 (racers s)))"

text \<open>\<open>draw_ui\<close> (lines 283-327).\<close>

definition draw_ui :: "'g game \<Rightarrow> draw_cmd list" where
  "draw_ui s =
     [Blit_Centered FONT_LARGE (Str ''RACE SORTER'') (RGB WHITE) (of_int (SCREEN_WIDTH div 2), 40),
      Blit FONT_MEDIUM
        (Str (''Mode: '' @ (if algorithm_mode s = RANDOMIZED then ''Randomized QuickSort'' else ''Deterministic QuickSort'')))
        (RGB (if algorithm_mode s = RANDOMIZED then GREEN else ORANGE)) (50, 80),
      Blit FONT_SMALL (Str (''Sort Operations: '' @ nat_str (sort_operations s))) (RGB WHITE) (50, 120)] @
     (if \<not> racing s then
        [Blit FONT_SMALL (Str ''Press SPACE to start race | R for Randomized | D for Deterministic | C for Comparison'')
           (RGB LIGHT_GRAY) (of_int (SCREEN_WIDTH div 2 - 350), of_int (SCREEN_HEIGHT - 30))]
      else []) @
     (if finish_order s \<noteq> [] then
        [Blit FONT_MEDIUM (Str ''Finish Order:'') (RGB WHITE) (of_int (SCREEN_WIDTH - 300), 100)] @
        map (\<lambda>(i, r). Blit FONT_SMALL (Finish_Entry (i + 1) (name r) (finish_time r)) (RGB (color r))
                        (of_int (SCREEN_WIDTH - 300), 140 + real i * 25))
            (enumerate 0 (finish_order s))
      else []) @
     map (\<lambda>(i, (text, c)). Blit FONT_SMALL (Str text) (RGB c) (50 + real i * 350, 600))
       (enumerate 0 [(''Attributes: Speed | Accel | Handling'', WHITE),
                     (''Yellow border: Pivot selection'', YELLOW),
                     (''Glowing: Median racer power'', CYAN)])"

text \<open>\<open>draw_comparison\<close> (lines 329-367). The source's worst-case string of
  the deterministic row holds a mis-encoded superscript two; the model keeps
  the ASCII text \<open>O(n^2)\<close>.\<close>

definition draw_comparison :: "draw_cmd list" where
  "draw_comparison =
     [Fill BLACK,
      Blit_Centered FONT_LARGE (Str ''Algorithm Performance Comparison'') (RGB WHITE) (of_int (SCREEN_WIDTH div 2), 50)] @
     concat (map (\<lambda>(i, (nm, complexity, pivot, worst)).
        let y = 150 + real i * 200 in
        [Draw_Rect (RGB DARK_GRAY) (100, y, of_int (SCREEN_WIDTH - 200), 150) 0,
         Draw_Rect (RGB (if i = 0 then GREEN else ORANGE)) (100, y, of_int (SCREEN_WIDTH - 200), 150) 3,
         Blit FONT_MEDIUM (Str nm) (RGB WHITE) (120, y + 10),
         Blit FONT_SMALL (Str (''Complexity: '' @ complexity)) (RGB WHITE) (120, y + 50),
         Blit FONT_SMALL (Str (''Pivot: '' @ pivot)) (RGB WHITE) (120, y + 80),
         Blit FONT_SMALL (Str (''Worst Case: '' @ worst)) (RGB WHITE) (120, y + 110)])
       (enumerate 0 [(''Randomized QuickSort'', ''O(n log n) average'', ''Unpredictable pivots'', ''Better worst-case''),
                     (''Deterministic QuickSort'', ''O(n log n) average'', ''Fixed pivot (last)'', ''O(n^2) worst-case'')])) @
     [Blit_Centered FONT_SMALL (Str ''Press ESC to return to game'') (RGB LIGHT_GRAY)
        (of_int (SCREEN_WIDTH div 2), of_int (SCREEN_HEIGHT - 50))]"

text \<open>The drawing half of one iteration of \<open>run\<close> (lines 408-425), on the
  state after the events and the update.\<close>

definition draw_screen :: "'g game \<Rightarrow> draw_cmd list" where
  "draw_screen s =
     (if \<not> show_comparison s then
        [Fill BLACK] @ draw_track @ draw_racers s @ draw_ui s @
        (if race_complete s then
           [Blit_Centered FONT_MEDIUM (Str ''Race Complete! Press ENTER to race again'') (RGB GREEN)
              (of_int (SCREEN_WIDTH div 2), 150)]
         else [])
      else draw_comparison)"



text \<open>The arguments pygame accepts: a colour is three channels in
  \<open>0..255\<close> (four with an alpha), a rectangle has a non-negative size; other
  values make \<open>pygame.draw\<close> and \<open>Font.render\<close> raise.\<close>

definition color_ok :: "color \<Rightarrow> bool" where
  "color_ok c = (case c of (r, g, b) \<Rightarrow> r \<le> 255 \<and> g \<le> 255 \<and> b \<le> 255)"

fun paint_ok :: "paint \<Rightarrow> bool" where
  "paint_ok (RGB c) = color_ok c"
| "paint_ok (RGBA c a) = (color_ok c \<and> 0 \<le> a \<and> a \<le> 255)"

fun cmd_ok :: "draw_cmd \<Rightarrow> bool" where
  "cmd_ok (Fill c) = color_ok c"
| "cmd_ok (Draw_Rect p (x, y, w, h) k) = (paint_ok p \<and> 0 \<le> w \<and> 0 \<le> h)"
| "cmd_ok (Draw_Line c a b k) = color_ok c"
| "cmd_ok (Blit f l p a) = paint_ok p"
| "cmd_ok (Blit_Centered f l p a) = paint_ok p"

lemma draw_racer_lane: "draw_racer h i (r\<lparr>lane := l\<rparr>) = draw_racer h i r"
  by (simp add: draw_racer_def car_rect_def activate_power_def)

lemma draw_racer_body:
  "racer_body x = racer_body y \<Longrightarrow> draw_racer h i x = draw_racer h i y"
  by (metis draw_racer_lane racer_body_def)

lemma draw_racers_enum:
  "map racer_body xs = map racer_body ys \<Longrightarrow>
   map (\<lambda>(i, r). draw_racer h i r) (enumerate n xs) = map (\<lambda>(i, r). draw_racer h i r) (enumerate n ys)"
proof (induction xs arbitrary: ys n)
  case (Cons x xs)
  then obtain y ys' where y: "ys = y # ys'" by (cases ys) auto
  then show ?case using Cons draw_racer_body [of x y h n] by simp
qed simp

lemma draw_racers_lanes:
  "map racer_body xs = map racer_body (racers s) \<Longrightarrow> draw_racers (s\<lparr>racers := xs\<rparr>) = draw_racers s"
  unfolding draw_racers_def using draw_racers_enum [of xs "racers s"] by simp

lemma draw_ui_cong:
  assumes "algorithm_mode s = algorithm_mode t" "sort_operations s = sort_operations t"
    "racing s = racing t" "finish_order s = finish_order t"
  shows "draw_ui s = draw_ui t"
  by (simp only: draw_ui_def assms)

lemma nat_str_cases:
  "n < 10 \<Longrightarrow> nat_str n = [char_of (48 + n)]"
  "\<not> n < 10 \<Longrightarrow> nat_str n = nat_str (n div 10) @ [char_of (48 + n mod 10)]"
  by simp_all

declare nat_str.simps [simp del]

lemma colors_ok [simp]:
  "color_ok BLACK" "color_ok WHITE" "color_ok ORANGE" "color_ok DARK_GRAY" "color_ok LIGHT_GRAY"
  "color_ok RED" "color_ok GREEN" "color_ok BLUE" "color_ok YELLOW" "color_ok PURPLE" "color_ok CYAN"
  by (simp_all add: color_ok_def BLACK_def WHITE_def ORANGE_def DARK_GRAY_def LIGHT_GRAY_def
      RED_def GREEN_def BLUE_def YELLOW_def PURPLE_def CYAN_def)

lemma attrs_ok_color: "attrs_ok r \<Longrightarrow> color_ok (color r)"
  by (auto simp: attrs_ok_def racer_colors_def)

lemma set_enumerate_snd: "(i, r) \<in> set (enumerate n xs) \<Longrightarrow> r \<in> set xs"
  by (simp add: enumerate_eq_zip) (metis set_zip_rightD)

lemma draw_track_ok: "list_all cmd_ok draw_track"
  by (auto simp: draw_track_def checkered_pattern_def list_all_iff SCREEN_WIDTH_def)

lemma draw_racer_ok: "attrs_ok r \<Longrightarrow> list_all cmd_ok (draw_racer h i r)"
  by (auto simp: draw_racer_def list_all_iff car_rect_def inflate_def attrs_ok_color)

lemma draw_racers_ok: "\<forall>r \<in> set (racers s). attrs_ok r \<Longrightarrow> list_all cmd_ok (draw_racers s)"
  by (auto simp: draw_racers_def list_all_iff dest!: set_enumerate_snd) (metis draw_racer_ok list_all_iff)

lemma draw_ui_ok: "\<forall>r \<in> set (finish_order s). attrs_ok r \<Longrightarrow> list_all cmd_ok (draw_ui s)"
  by (auto simp: draw_ui_def list_all_iff dest!: set_enumerate_snd) (metis attrs_ok_color)

lemma draw_comparison_ok: "list_all cmd_ok draw_comparison"
  by (auto simp: draw_comparison_def list_all_iff SCREEN_WIDTH_def)

lemma real_lt_bound: "i < Suc n \<Longrightarrow> real i \<le> real n"
  by simp

text \<open>The extent of the checkered pattern, behind the finding on line 246: it
  covers only \<open>[1050, 1150] \<times> [180, 380]\<close>, the upper half of the finish
  line that \<open>draw_track\<close> draws from \<open>y = 180\<close> to \<open>580\<close>, and reaches 30
  pixels past the right edge \<open>x = 1120\<close> of the track.\<close>

theorem checkered_pattern_extent:
  "list_all (\<lambda>c. \<exists>p x y. c = Draw_Rect p (x, y, 10, 25) 0 \<and>
                  1050 \<le> x \<and> x + 10 \<le> 1150 \<and> 180 \<le> y \<and> y + 25 \<le> 380) checkered_pattern \<and>
   Draw_Rect (RGB WHITE) (1140, 355, 10, 25) 0 \<in> set checkered_pattern \<and>
   Draw_Line RED (1050, 180) (1050, 580) 4 \<in> set draw_track"
proof (intro conjI)
  show "list_all (\<lambda>c. \<exists>p x y. c = Draw_Rect p (x, y, 10, 25) 0 \<and>
          1050 \<le> x \<and> x + 10 \<le> 1150 \<and> 180 \<le> y \<and> y + 25 \<le> 380) checkered_pattern"
  proof (unfold list_all_iff checkered_pattern_def, intro ballI)
    fix c assume "c \<in> set (concat (map (\<lambda>i. map (\<lambda>j. Draw_Rect (RGB (if (i + j) mod 2 = 0 then WHITE else BLACK))
                   (of_int (SCREEN_WIDTH - 150) + real i * 10, 180 + real j * 25, 10, 25) 0) [0..<8]) [0..<10]))"
    then obtain i j where ij: "i < 10" "j < 8" and
      c: "c = Draw_Rect (RGB (if (i + j) mod 2 = 0 then WHITE else BLACK))
                (of_int (SCREEN_WIDTH - 150) + real i * 10, 180 + real j * 25, 10, 25) 0" by auto
    have "real i \<le> 9" "real j \<le> 7" using real_lt_bound [of i 9] real_lt_bound [of j 7] ij by simp_all
    then show "\<exists>p x y. c = Draw_Rect p (x, y, 10, 25) 0 \<and>
          1050 \<le> x \<and> x + 10 \<le> 1150 \<and> 180 \<le> y \<and> y + 25 \<le> 380"
      unfolding c by (simp add: SCREEN_WIDTH_def)
  qed
  have "Draw_Rect (RGB WHITE) (of_int (SCREEN_WIDTH - 150) + real (9 :: nat) * 10, 180 + real (7 :: nat) * 25, 10, 25) 0
          \<in> set checkered_pattern"
    unfolding checkered_pattern_def set_concat set_map by (auto intro!: bexI [of _ 9] image_eqI [of _ _ 7])
  then show "Draw_Rect (RGB WHITE) (1140, 355, 10, 25) 0 \<in> set checkered_pattern"
    by (simp add: SCREEN_WIDTH_def)
  show "Draw_Line RED (1050, 180) (1050, 580) 4 \<in> set draw_track"
    by (simp add: draw_track_def SCREEN_WIDTH_def)
qed

text \<open>C22: The picture does not depend on the lanes: replacing the racers by
  any list with the same entities in the same slots, whatever their
  \<open>lane\<close> fields, draws the same screen. Cars are drawn at their \<open>y\<close>, which
  \<open>start_race\<close> sets from the list position after the sort, so the lane swaps
  of \<open>partition\<close> are never seen.\<close>

theorem draw_screen_ignores_lanes:
  "map racer_body xs = map racer_body (racers s) \<Longrightarrow> draw_screen (s\<lparr>racers := xs\<rparr>) = draw_screen s"
proof -
  assume "map racer_body xs = map racer_body (racers s)"
  then have "draw_racers (s\<lparr>racers := xs\<rparr>) = draw_racers s" by (rule draw_racers_lanes)
  moreover have "draw_ui (s\<lparr>racers := xs\<rparr>) = draw_ui s" by (rule draw_ui_cong) simp_all
  moreover have "show_comparison (s\<lparr>racers := xs\<rparr>) = show_comparison s"
    "race_complete (s\<lparr>racers := xs\<rparr>) = race_complete s" by simp_all
  ultimately show ?thesis by (simp only: draw_screen_def)
qed

theorem draw_screen_ignores_lanes_witness:
  "map racer_body (map (\<lambda>r. r\<lparr>lane := 5 - lane r\<rparr>) (racers (game_init lcg 1))) =
     map racer_body (racers (game_init lcg 1)) \<and>
   draw_screen ((game_init lcg 1)\<lparr>racers := map (\<lambda>r. r\<lparr>lane := 5 - lane r\<rparr>) (racers (game_init lcg 1))\<rparr>) =
     draw_screen (game_init lcg 1)"
  using draw_screen_ignores_lanes [of "map (\<lambda>r. r\<lparr>lane := 5 - lane r\<rparr>) (racers (game_init lcg 1))" "game_init lcg 1"]
  by (simp add: comp_def)

text \<open>C23: In every reachable state each car rectangle lies inside the track
  background \<open>(80, 180, 1040, 400)\<close>.\<close>

theorem cars_inside_track:
  assumes "reach R s" "uniform_ok R" "randint_ok R"
  shows "list_all (\<lambda>r. case car_rect r of (x, y, w, h) \<Rightarrow>
                     80 \<le> x \<and> x + w \<le> 80 + of_int (SCREEN_WIDTH - 160) \<and> 180 \<le> y \<and> y + h \<le> 580) (racers s)"
proof -
  have I: "game_inv s" using reach_inv [OF assms] .
  show ?thesis unfolding list_all_length
  proof (intro allI impI)
    fix i assume i: "i < length (racers s)"
    then have i6: "i < 6" using I by (simp add: game_inv_def)
    have y: "y_pos (racers s ! i) = 200 + int i * 60" using I i6 by (simp add: game_inv_def)
    have "motion_ok (racers s ! i)" using I i by (simp add: game_inv_def)
    then have x: "100 \<le> x_pos (racers s ! i) \<and> x_pos (racers s ! i) \<le> 1050"
      using motion_ok_x by (simp add: SCREEN_WIDTH_def)
    show "case car_rect (racers s ! i) of (x, y, w, h) \<Rightarrow>
            80 \<le> x \<and> x + w \<le> 80 + of_int (SCREEN_WIDTH - 160) \<and> 180 \<le> y \<and> y + h \<le> 580"
      using x y i6 by (simp add: car_rect_def SCREEN_WIDTH_def)
  qed
qed

theorem cars_inside_track_witness:
  "reach lcg (game_init lcg 1) \<and> uniform_ok lcg \<and> randint_ok lcg \<and>
   list_all (\<lambda>r. case car_rect r of (x, y, w, h) \<Rightarrow>
               80 \<le> x \<and> x + w \<le> 80 + of_int (SCREEN_WIDTH - 160) \<and> 180 \<le> y \<and> y + h \<le> 580)
     (racers (game_init lcg 1))"
  using cars_inside_track [OF reach.init [of lcg 1] lcg_uniform_ok lcg_randint_ok]
    reach.init [of lcg 1] lcg_uniform_ok lcg_randint_ok
  by blast

text \<open>C24: In every reachable state each car is drawn centred on one of the
  white lane lines of \<open>draw_track\<close>: rows are \<open>200 + 60 i\<close> and so are the lines,
  so the cars straddle the lane dividers instead of running between them.\<close>

theorem cars_on_lane_lines:
  assumes "reach R s" "uniform_ok R" "randint_ok R"
  shows "list_all (\<lambda>r. Draw_Line WHITE (80, of_int (y_pos r)) (of_int (SCREEN_WIDTH - 80), of_int (y_pos r)) 2
                       \<in> set draw_track) (racers s)"
proof -
  have I: "game_inv s" using reach_inv [OF assms] .
  show ?thesis unfolding list_all_length
  proof (intro allI impI)
    fix i assume i: "i < length (racers s)"
    then have i6: "i < 6" using I by (simp add: game_inv_def)
    have y: "y_pos (racers s ! i) = 200 + int i * 60" using I i6 by (simp add: game_inv_def)
    have "Draw_Line WHITE (80, 200 + real i * 60) (of_int (SCREEN_WIDTH - 80), 200 + real i * 60) 2 \<in> set draw_track"
      using i6 by (simp add: draw_track_def)
    then show "Draw_Line WHITE (80, of_int (y_pos (racers s ! i))) (of_int (SCREEN_WIDTH - 80), of_int (y_pos (racers s ! i))) 2
                 \<in> set draw_track" using y by simp
  qed
qed

theorem cars_on_lane_lines_witness:
  "reach lcg (game_init lcg 1) \<and> uniform_ok lcg \<and> randint_ok lcg \<and>
   list_all (\<lambda>r. Draw_Line WHITE (80, of_int (y_pos r)) (of_int (SCREEN_WIDTH - 80), of_int (y_pos r)) 2
                  \<in> set draw_track) (racers (game_init lcg 1))"
  using cars_on_lane_lines [OF reach.init [of lcg 1] lcg_uniform_ok lcg_randint_ok]
    reach.init [of lcg 1] lcg_uniform_ok lcg_randint_ok
  by blast

text \<open>C25: In every reachable state each pygame call of the frame's drawing
  is well typed: every colour has its channels in \<open>0..255\<close>, the power
  glow's alpha \<open>100 - j * 30\<close> (a Python int) stays in \<open>0..255\<close> for the
  three rings \<open>range(3)\<close> draws, and every rectangle has a non-negative size.
  The racers' colours, and those of the finish-order records, come from
  \<open>init_racers\<close>'s palette, which no operation changes.\<close>

theorem draw_screen_well_typed:
  assumes "reach R s" "uniform_ok R" "randint_ok R"
  shows "list_all cmd_ok (draw_screen s)"
proof -
  have I: "game_inv s" using reach_inv [OF assms] .
  then have "list_all cmd_ok (draw_racers s)" "list_all cmd_ok (draw_ui s)"
    by (simp_all add: game_inv_def draw_racers_ok draw_ui_ok)
  then show ?thesis
    using draw_track_ok draw_comparison_ok by (simp add: draw_screen_def)
qed

theorem draw_screen_well_typed_witness:
  "reach lcg (game_init lcg 1) \<and> uniform_ok lcg \<and> randint_ok lcg \<and>
   list_all cmd_ok (draw_screen (game_init lcg 1))"
  using draw_screen_well_typed [OF reach.init [of lcg 1] lcg_uniform_ok lcg_randint_ok]
    reach.init [of lcg 1] lcg_uniform_ok lcg_randint_ok
  by blast

end
