(* ===== verification/Snapshot.thy ===== *)
theory Snapshot
  imports Lifecycle
begin

text \<open>
  \<open>self.finish_order\<close> holds racer objects, and \<open>draw_ui\<close> reads their
  \<open>name\<close>, \<open>color\<close> and \<open>finish_time\<close> at drawing time; \<open>Game\<close> keeps instead
  the record of each racer as it is when appended. The two agree when every
  entry matches, in those fields, the live racer of the same identity. This
  theory proves that they do in every reachable state. Entries whose racer
  has left \<open>self.racers\<close> (after \<open>R\<close>, \<open>D\<close> or \<open>ENTER\<close> rebuild the registry) are
  reachable in the source only through \<open>finish_order\<close>, and no method writes
  them.
\<close>

definition coherent :: "racer list \<Rightarrow> racer list \<Rightarrow> bool" where
  "coherent fo rs \<longleftrightarrow>
     (\<forall>f \<in> set fo. \<forall>r \<in> set rs. oid r = oid f \<longrightarrow>
        finished r \<and> name r = name f \<and> color r = color f \<and> finish_time r = finish_time f)"

definition finish_coherent :: "'g game \<Rightarrow> bool" where
  "finish_coherent s \<longleftrightarrow> coherent (finish_order s) (racers s)"

lemma coherent_Cons:
  "coherent fo (r # rs) \<longleftrightarrow> coherent fo rs \<and>
     (\<forall>f \<in> set fo. oid r = oid f \<longrightarrow>
        finished r \<and> name r = name f \<and> color r = color f \<and> finish_time r = finish_time f)"
  by (auto simp: coherent_def)

lemma coherent_fresh:
  "\<forall>f \<in> set fo. oid f < n \<Longrightarrow> \<forall>r \<in> set rs. n \<le> oid r \<Longrightarrow> coherent fo rs"
  unfolding coherent_def by (metis leD)

lemma update_racer_snapshot:
  assumes u: "update_racer R now t0 dt r fo g = (r', fo', g')"
  shows "name r' = name r \<and> color r' = color r \<and>
         (finished r \<and> oid r \<in> set (map oid fo) \<longrightarrow> finished r' \<and> finish_time r' = finish_time r)"
proof -
  define b :: real where "b = (if power_active r then 1.5 else 1.0)"
  obtain r1 g1 where ru: "racer_update R dt b r g = (r1, g1)" by (cases "racer_update R dt b r g")
  have st: "oid r1 = oid r \<and> name r1 = name r \<and> color r1 = color r \<and> finish_time r1 = finish_time r \<and>
            (finished r \<longrightarrow> finished r1)"
    using racer_update_static [of R dt b r g] ru by simp
  show ?thesis
    using u st unfolding update_racer_def b_def [symmetric] Let_def ru by (auto split: if_splits)
qed

lemma update_loop_ext:
  "update_loop R now t0 dt rs fo g af = (rs', fo', g', af') \<Longrightarrow>
   \<exists>ext. fo' = fo @ ext \<and> set (map oid ext) \<subseteq> set (map oid rs)"
proof (induction rs arbitrary: fo g af rs' fo' g' af')
  case (Cons r rs)
  obtain r1 fo1 g1 where u1: "update_racer R now t0 dt r fo g = (r1, fo1, g1)"
    by (cases "update_racer R now t0 dt r fo g") auto
  obtain rs2 fo2 g2 af2 where u2: "update_loop R now t0 dt rs fo1 g1 (af \<and> finished r1) = (rs2, fo2, g2, af2)"
    by (cases "update_loop R now t0 dt rs fo1 g1 (af \<and> finished r1)") auto
  have e: "fo' = fo2" using Cons.prems u1 u2 by simp
  have F: "oid r1 = oid r \<and> fo1 = (if finished r1 \<and> oid r \<notin> set (map oid fo) then fo @ [r1] else fo)"
    using update_racer_facts [OF u1] by blast
  obtain ext where ext: "fo2 = fo1 @ ext" "set (map oid ext) \<subseteq> set (map oid rs)"
    using Cons.IH [OF u2] by blast
  show ?case
  proof (cases "finished r1 \<and> oid r \<notin> set (map oid fo)")
    case True
    then show ?thesis using F ext e by (intro exI [of _ "r1 # ext"]) auto
  next
    case False
    then show ?thesis using F ext e by (intro exI [of _ ext]) auto
  qed
qed simp

lemma update_loop_coherent:
  "update_loop R now t0 dt rs fo g af = (rs', fo', g', af') \<Longrightarrow> distinct (map oid rs) \<Longrightarrow>
   coherent fo rs \<Longrightarrow> coherent fo' rs'"
proof (induction rs arbitrary: fo g af rs' fo' g' af')
  case (Cons r rs)
  obtain r1 fo1 g1 where u1: "update_racer R now t0 dt r fo g = (r1, fo1, g1)"
    by (cases "update_racer R now t0 dt r fo g") auto
  obtain rs2 fo2 g2 af2 where u2: "update_loop R now t0 dt rs fo1 g1 (af \<and> finished r1) = (rs2, fo2, g2, af2)"
    by (cases "update_loop R now t0 dt rs fo1 g1 (af \<and> finished r1)") auto
  have e: "rs' = r1 # rs2" "fo' = fo2" using Cons.prems u1 u2 by simp_all
  have F: "oid r1 = oid r \<and> fo1 = (if finished r1 \<and> oid r \<notin> set (map oid fo) then fo @ [r1] else fo)"
    using update_racer_facts [OF u1] by blast
  note S = update_racer_snapshot [OF u1]
  have nr: "oid r \<notin> set (map oid rs)" and drs: "distinct (map oid rs)" using Cons.prems(2) by simp_all
  have cr: "coherent fo rs" and hd: "\<forall>f \<in> set fo. oid r = oid f \<longrightarrow>
        finished r \<and> name r = name f \<and> color r = color f \<and> finish_time r = finish_time f"
    using Cons.prems(3) by (simp_all add: coherent_Cons)
  have c1: "coherent fo1 rs"
    using cr nr F unfolding coherent_def by (auto split: if_splits simp: image_iff)
  have IH: "coherent fo2 rs2" using Cons.IH [OF u2 drs c1] .
  obtain ext where ext: "fo2 = fo1 @ ext" "set (map oid ext) \<subseteq> set (map oid rs)"
    using update_loop_ext [OF u2] by blast
  have "finished r1 \<and> name r1 = name f \<and> color r1 = color f \<and> finish_time r1 = finish_time f"
    if f: "f \<in> set fo2" "oid r1 = oid f" for f
  proof -
    have "f \<notin> set ext" using f(2) F ext(2) nr by auto
    then have f1: "f \<in> set fo1" using f(1) ext(1) by simp
    show ?thesis
    proof (cases "finished r1 \<and> oid r \<notin> set (map oid fo)")
      case True
      then have "f = r1" using f1 f(2) F by (auto split: if_splits)
      then show ?thesis using True by simp
    next
      case False
      then have "fo1 = fo" using F by (auto split: if_splits)
      then have ff: "f \<in> set fo" using f1 by simp
      then have "oid r \<in> set (map oid fo)" using f(2) F by (metis image_eqI list.set_map)
      then show ?thesis using hd ff f(2) F S by simp
    qed
  qed
  then show ?case unfolding e using IH by (simp add: coherent_Cons)
qed (simp add: coherent_def)


lemma finish_coherent_flags [simp]:
  "finish_coherent (s\<lparr>running := b\<rparr>) = finish_coherent s"
  "finish_coherent (s\<lparr>show_comparison := b\<rparr>) = finish_coherent s"
  by (simp_all add: finish_coherent_def)

lemma finish_coherent_Nil: "finish_order s = [] \<Longrightarrow> finish_coherent s"
  by (simp add: finish_coherent_def coherent_def)

lemma game_update_coherent:
  fixes s :: "'g game"
  assumes inv: "game_inv s" and c: "finish_coherent s"
  shows "finish_coherent (game_update R now dt s)"
proof (cases "racing s \<and> \<not> race_complete s")
  case True
  obtain rs' fo' g' af' where u:
    "update_loop R now (race_start_time s) dt (racers s) (finish_order s) (rng s) True = (rs', fo', g', af')"
    by (cases "update_loop R now (race_start_time s) dt (racers s) (finish_order s) (rng s) True") auto
  have d: "distinct (map oid (racers s))" using inv by (simp add: game_inv_def)
  have "coherent fo' rs'" using update_loop_coherent [OF u d] c by (simp add: finish_coherent_def)
  then show ?thesis using game_update_eq [OF _ _ u] True by (simp add: finish_coherent_def)
next
  case False
  have "game_update R now dt s = s" unfolding game_update_def using False by (rule if_not_P)
  then show ?thesis using c by simp
qed

lemma init_racers_coherent:
  fixes t :: "'g game"
  assumes "\<forall>k \<in> set (map oid (finish_order t)). k < next_oid t"
  shows "finish_coherent (init_racers R t)"
proof -
  note F = init_racers_game_fields [of R t]
  have "\<forall>f \<in> set (finish_order (init_racers R t)). oid f < next_oid t" using F assms by simp
  moreover have "\<forall>r \<in> set (racers (init_racers R t)). next_oid t \<le> oid r" using F by blast
  ultimately show ?thesis unfolding finish_coherent_def by (rule coherent_fresh)
qed

lemma coherent_init_racers:
  fixes t :: "'g game"
  shows "game_inv s \<Longrightarrow> finish_order t = finish_order s \<Longrightarrow> next_oid t = next_oid s \<Longrightarrow>
         finish_coherent (init_racers R t)"
  by (rule init_racers_coherent) (auto simp: game_inv_def)

lemma start_race_coherent:
  fixes s :: "'g game"
  assumes R: "randint_ok R" and inv: "game_inv s" and st: "start_race R now s = Inr s'"
  shows "finish_coherent s'"
proof -
  have ne: "racers s \<noteq> []" and d: "distinct (map oid (racers s))" using inv by (auto simp: game_inv_def)
  obtain t where t: "start_race R now s = Inr t" and e: "finish_order t = []"
    using start_race_result [OF R ne d, of now] by blast
  have "t = s'" using t st by simp
  then show ?thesis using e finish_coherent_Nil by blast
qed

lemma handle_event_coherent:
  fixes s :: "'g game"
  assumes R: "randint_ok R" and inv: "game_inv s" and c: "finish_coherent s"
    and h: "handle_event R now s e = Inr s'"
  shows "finish_coherent s'"
proof (cases e)
  case (KEYDOWN k)
  show ?thesis
  proof (cases "k = K_SPACE \<and> \<not> racing s")
    case True
    then show ?thesis using h KEYDOWN start_race_coherent [OF R inv] by (simp add: handle_event_def)
  next
    case False
    then show ?thesis
      using h KEYDOWN c
      by (cases k) (auto simp: handle_event_def split: if_splits intro!: coherent_init_racers [OF inv])
  qed
qed (use h c in \<open>auto simp: handle_event_def\<close>)

lemma handle_events_coherent:
  fixes s :: "'g game"
  shows "uniform_ok R \<Longrightarrow> randint_ok R \<Longrightarrow> game_inv s \<Longrightarrow> finish_coherent s \<Longrightarrow>
         handle_events R now s es = Inr s' \<Longrightarrow> finish_coherent s'"
proof (induction es arbitrary: s)
  case (Cons e es)
  obtain t where t: "handle_event R now s e = Inr t"
    using Cons.prems(5) by (cases "handle_event R now s e") auto
  have "game_inv t" using handle_event_game_inv [OF Cons.prems(1,2,3) t] .
  moreover have "finish_coherent t" using handle_event_coherent [OF Cons.prems(2,3,4) t] .
  moreover have "handle_events R now t es = Inr s'" using Cons.prems(5) t by simp
  ultimately show ?case using Cons.IH [OF Cons.prems(1,2)] by blast
qed simp

lemma frame_coherent:
  fixes s :: "'g game"
  assumes U: "uniform_ok R" and R: "randint_ok R" and inv: "game_inv s" and c: "finish_coherent s"
    and f: "frame R now dt evs s = Inr s'"
  shows "finish_coherent s'"
proof -
  obtain t where t: "handle_events R now s evs = Inr t"
    using f by (cases "handle_events R now s evs") (auto simp: frame_def)
  have it: "game_inv t" using handle_events_game_inv [OF U R inv t] .
  have ct: "finish_coherent t" using handle_events_coherent [OF U R inv c t] .
  have "s' = (if \<not> show_comparison t then game_update R now dt t else t)" using f t by (simp add: frame_def)
  then show ?thesis using game_update_coherent [OF it ct] ct by simp
qed

text \<open>Adequacy of the representation: in every reachable state each entry of
  the finish order agrees with the live racer of the same identity, if that
  racer is still in \<open>self.racers\<close>, in the fields the drawing reads. In the
  source the entry is that object, so this is what holding records instead of
  objects must preserve.\<close>

lemma finish_order_snapshots:
  assumes "reach R s" "uniform_ok R" "randint_ok R"
  shows "finish_coherent s"
  using assms
proof (induction rule: reach.induct)
  case (init g)
  then show ?case using game_init_flags [of R g] finish_coherent_Nil by blast
next
  case (step s dt now evs s')
  have "game_inv s" using reach_inv [OF step.hyps(1) step.prems] .
  then show ?case using frame_coherent [OF step.prems _ _ step.hyps(4)] step.IH step.prems by blast
qed

end
