(* ===== verification/Spec2Isabelle.thy ===== *)
theory Spec2Isabelle
  imports Liveness Render Snapshot
begin

text \<open>
  \<^bold>\<open>Race Sorter: a verification development of \<open>src/project/code.py\<close>.\<close>

  \<^bold>\<open>The program.\<close> A pygame application animates QuickSort as a car race. Class
  \<open>Racer\<close> (lines 33-80) holds one entity with a precomputed key \<open>sort_value\<close>
  and a display slot \<open>lane\<close>. Class \<open>RaceSorterGame\<close> owns the list
  \<open>self.racers\<close> (the racer registry, created by \<open>init_racers\<close>, lines 105-119)
  and the sorting engine: \<open>quicksort_randomized\<close> and
  \<open>quicksort_deterministic\<close> (lines 121-145) share the Lomuto \<open>partition\<close>
  (lines 147-162) and record the instrumentation \<open>sort_operations\<close> and
  \<open>pivot_highlights\<close>; \<open>find_median\<close> (lines 164-168) picks the upper median
  of a key-sorted copy. \<open>start_race\<close> (lines 170-201) resets the racers, sorts
  in the selected mode and gives the median racer a power boost; \<open>update\<close>
  (lines 203-227) moves every racer one frame and keeps the finish order;
  \<open>handle_events\<close> (lines 369-399) maps keys to these operations and \<open>run\<close>
  (lines 401-427) drives the loop frame by frame, drawing each frame with
  \<open>draw_track\<close>, \<open>draw_racers\<close>, \<open>draw_ui\<close> and \<open>draw_comparison\<close>
  (lines 229-367), which read the state and change none of it.

  \<^bold>\<open>Theories.\<close>
  \<^item> \<open>Prelude\<close>: Python's swap statement on int-indexed lists (\<open>swap_at\<close>), list
    indexing with negative indices and IndexError (\<open>py_getitem\<close>), the frame
    predicate \<open>same_outside\<close>, slices and sortedness of a closed index range,
    and the generic lemma that composes a partition with two sorted sides
    (\<open>sorted_between_compose\<close>).
  \<^item> \<open>PyRandom\<close>: the global \<open>random\<close> module as an injected provider
    (\<open>random_module\<close>: \<open>randint\<close>, \<open>uniform\<close>, \<open>random\<close> over a generator state)
    with its range contract \<open>random_module_ok\<close>, and a seeded generator
    \<open>lcg\<close> that meets it and serves the witnesses.
  \<^item> \<open>Racer\<close>: the record \<open>racer\<close> (one field per attribute; \<open>oid\<close> stands for
    the object identity), \<open>calculate_sort_value\<close>, the constructor
    \<open>new_racer\<close>, the physics step \<open>racer_update\<close> and \<open>activate_power\<close>.
  \<^item> \<open>Partition\<close>: \<open>swap_lanes\<close>, the loop \<open>partition_loop\<close> and \<open>partition\<close>;
    lemmas: index bounds, Lomuto invariant, the entities permuted only inside
    the range, every cell keeping its lane.
  \<^item> \<open>Quicksort\<close>: the engine state \<open>engine\<close> (racers, counters, generator),
    both recursive sorts, the mode dispatch \<open>sort_racers\<close>; the contract
    \<open>sorts_range\<close> of one call on a range (the abstract specification the two
    sorts refine) and its proof by the derived induction rules
    \<open>quicksort_deterministic_induct\<close> and \<open>quicksort_randomized_induct\<close> (C1-C3).
  \<^item> \<open>Instrumentation\<close>: lanes, operation counts and pivot highlights of the
    sorts: lanes kept per slot in deterministic mode and permuted in both, one
    highlight and one count per partition call with between \<open>(N - 1) / 2\<close>
    and \<open>N - 1\<close> calls, and the exact values on sorted input (C4-C7).
  \<^item> \<open>Median\<close>: \<open>find_median\<close>, its IndexError on the empty list and the upper
    median it returns (C8-C11).
  \<^item> \<open>Registry\<close>: the identity allocator \<open>registry\<close> and \<open>init_racers\<close> as a
    fold of \<open>init_racer_step\<close> over \<open>range(6)\<close> (C12).
  \<^item> \<open>Game\<close>: the game state \<open>game\<close>, \<open>game_init\<close> (\<open>__init__\<close>), \<open>start_race\<close>
    with its parts \<open>reset_racer\<close>, \<open>set_rows\<close> and \<open>activate_in\<close>, \<open>update\<close> as
    \<open>game_update\<close> over the per-racer loop \<open>update_loop\<close>/\<open>update_racer\<close>, the
    event datatype and \<open>handle_event\<close>/\<open>handle_events\<close>, one loop iteration
    \<open>frame\<close> and \<open>run\<close> over a finite list of frames; the per-racer
    well-formedness predicates \<open>attrs_ok\<close> (attribute ranges, key, colour
    from the palette) and \<open>motion_ok\<close> and their preservation by every step.
  \<^item> \<open>Lifecycle\<close>: the invariant \<open>game_inv\<close> and the reachable states
    \<open>reach\<close> (the initial game, then frames taken while running); every
    operation keeps the invariant, no frame raises, \<open>run\<close> returns, and the
    behaviour of \<open>start_race\<close>, \<open>update\<close> and a mode key during a race (C13-C18).
  \<^item> \<open>Liveness\<close>: progress of a race. An unfinished racer gains at least
    \<open>step_bound d = min (20 d) 80 * d\<close> of position per frame whose tick is at
    least \<open>d\<close>, whatever the random source returns, because its speed after the
    acceleration step is at least \<open>min (acceleration * dt) base_speed\<close> and the
    attributes stay in the ranges \<open>init_racers\<close> draws from; it finishes at
    position 475. So a race left alone completes within
    \<open>475 / step_bound d\<close> frames (C19), and a frame holding QUIT ends the
    main loop (C20). The bound is the worst case of these ranges, not a
    typical race: at 60 frames per second it is 85500 frames. While the
    comparison screen is shown, frames without events leave the state
    unchanged: the race is frozen but its clock is not (C26).
  \<^item> C21 (in \<open>Quicksort\<close>): on keys, \<open>sort_racers\<close> in either mode equals the
    library's reference \<open>sort\<close>.
  \<^item> \<open>Render\<close>: the drawing as a display list. \<open>draw_track\<close>, \<open>draw_racer\<close>
    and \<open>draw_racers\<close>, \<open>draw_ui\<close>, \<open>draw_comparison\<close> and the drawing
    half of \<open>run\<close> (\<open>draw_screen\<close>) map a state to the list of pygame calls
    (\<open>draw_cmd\<close>) they make, in order, with Python's \<open>str\<close> of an integer
    (\<open>nat_str\<close>, \<open>int_str\<close>), \<open>int()\<close> of a float (\<open>py_int\<close>) and
    \<open>Rect.inflate\<close>. Lemmas: the screen does not depend on the \<open>lane\<close>
    fields (C22), every car lies inside the track (C23) and is centred on a
    white lane line (C24), and every call has colours and the glow's int alpha
    in \<open>0..255\<close> and non-negative sizes (C25). The lemma
    \<open>checkered_pattern_extent\<close> shows the checkered pattern covers only the
    upper half of the finish line and overhangs the track.
  \<^item> \<open>Snapshot\<close>: the finish order holds the records of the racers as they
    finish, where the source holds the objects. \<open>finish_coherent\<close> says that
    every entry agrees with the live racer of the same identity in the fields
    \<open>draw_ui\<close> reads (name, colour, finish time) and that this racer has
    finished. Every operation keeps it (\<open>update_loop_coherent\<close>,
    \<open>handle_event_coherent\<close>, \<open>frame_coherent\<close>), so it holds in every
    reachable state (\<open>finish_order_snapshots\<close>): the records draw what the
    objects would. This is an adequacy lemma of the representation, not a
    property of the code.

  \<^bold>\<open>Modelling choices.\<close> Indices are \<open>int\<close> as in Python (\<open>i = low - 1\<close> and
  \<open>pi - 1\<close> may be negative) and read lists through \<open>nat\<close>; the lemmas carry
  the range conditions under which every access is in range, and the top-level
  calls satisfy them. Floats are \<open>real\<close>: rounding is not modelled, and the
  engine only compares stored keys, so its theorems hold for every key value.
  The random source is a parameter; theorems assume only its range contract.
  Object identity is the ghost field \<open>oid\<close>: \<open>racer not in self.finish_order\<close>
  compares identities, the finish order holds each racer's record as it is
  when appended (the drawing reads only its name, colour and finish time), and
  \<open>median_racer.activate_power()\<close> updates the entry with the median's
  identity. The clock \<open>time.time()\<close> and the tick
  \<open>clock.tick(FPS) / 1000.0\<close> are inputs of each frame (one clock reading per
  frame, where the source calls \<open>time.time()\<close> again in \<open>start_race\<close> and for
  each finishing racer; only \<open>race_start_time\<close> and \<open>finish_time\<close> values differ
  by the time between those calls). The power glow's alpha is a Python
  \<open>int\<close> (\<open>int\<close> in the model), so a value below 0 is kept, not cut off. An uncaught exception is the left value of \<open>py_error + _\<close>.
  Recursion terminates: both sorts are \<open>function\<close>s with the measure
  \<open>high - low + 1\<close>, which decreases because \<open>partition\<close> returns an index in
  \<open>[low, high]\<close>. The endless \<open>while self.running\<close> loop is \<open>run\<close> over the
  finite list of frames the environment supplies, so no fuel is needed: every
  statement about the loop holds for every finite prefix of a run.

  \<^bold>\<open>Not modelled.\<close> What pygame does with the display list: rasterising
  shapes, converting float coordinates of a \<open>Rect\<close> to pixels, the size of a
  rendered text (so a text placed by \<open>get_rect(center=...)\<close> keeps its centre
  only) and the \<open>{:.2f}\<close> float format (kept as the value it prints).
  pygame initialisation, \<open>display.flip\<close>, \<open>pygame.quit\<close> and the frame
  clock are I/O outside the state; the clock's readings are inputs of each
  frame.
\<close>

end
